theory Spec2Isabelle
  imports Complex_Main
begin

section \<open>Data model of \<open>WorkflowGraph\<close> (workflow.js)\<close>

text \<open>
  The embedding follows \<^verbatim>\<open>src/app/workflow_graph/workflow.js\<close>, class
  \<^verbatim>\<open>WorkflowGraph\<close>: the graph model (\<^verbatim>\<open>setData\<close>,
  \<^verbatim>\<open>_validateAndBuildGraph\<close>, \<^verbatim>\<open>topoSort\<close>, \<^verbatim>\<open>_computeDepths\<close>) and the
  layout (\<^verbatim>\<open>relayout\<close>, \<^verbatim>\<open>_ensurePositionsForMissing\<close>, the drag handlers).

  Input type. A raw workflow is a record with an optional \<^verbatim>\<open>nodes\<close> array; a raw node is
  a record \<^verbatim>\<open>{ id?: string, depends_on?: [{ node_id?: string }] }\<close> (other fields are
  never read by the modelled methods). A value read off a node as an identifier is
  therefore \<^verbatim>\<open>undefined\<close> or a string: the type \<open>js_id\<close>, with \<open>None\<close> for
  \<^verbatim>\<open>undefined\<close>. Entries of \<^verbatim>\<open>nodes\<close> and \<^verbatim>\<open>depends_on\<close> are records, so the guards
  \<^verbatim>\<open>!n\<close> and \<^verbatim>\<open>dep &&\<close> never fire; a \<^verbatim>\<open>depends_on\<close> that is missing or not an
  array reads as the empty list at both places that read it, and is the empty list here.
  Characters are code units below 256. In-degrees are \<open>int\<close>, depths are \<open>nat\<close>.

  Numbers. A pixel quantity is a JavaScript number, an IEEE 754 double: its value is a
  \<open>real\<close>, and \<^verbatim>\<open>+\<close>, \<^verbatim>\<open>-\<close>, \<^verbatim>\<open>*\<close> and \<^verbatim>\<open>/\<close> return the exact result rounded to a double.
  The rounding is the field \<open>fl\<close> of the state, a parameter of the model that no method
  writes: every theorem below holds for every \<open>fl\<close>, so for the rounding of doubles.
  Comparisons and \<^verbatim>\<open>Math.max\<close> are exact; counts and indices are integers, exact as
  doubles. The style constants and the viewport width are finite numbers (no
  \<^verbatim>\<open>NaN\<close>, no overflow).
\<close>

type_synonym js_id = "string option"

datatype raw_dep = Dep (node_id: js_id)

datatype raw_node = Node (nid: js_id) (depends_on: "raw_dep list")

datatype workflow = Workflow (nodes_field: "raw_node list option")

datatype js_error =
    InvalidId                 \<comment> \<open>Error: Each node must have a non-empty string id.\<close>
  | DuplicateId string        \<comment> \<open>Error: Duplicate node id: ...\<close>
  | UnknownDep js_id js_id    \<comment> \<open>Error: Node "n.id" depends_on unknown node "depId".\<close>
  | TypeError                 \<comment> \<open>a property read or an iteration of \<^verbatim>\<open>undefined\<close>\<close>

text \<open>An edge \<^verbatim>\<open>{from, to}\<close> is the pair \<open>(from, to)\<close>; a position \<^verbatim>\<open>{x, y}\<close> is \<open>(x, y)\<close>.\<close>

type_synonym edge = "js_id \<times> js_id"

type_synonym pos = "real \<times> real"

record workflow_graph =
  NODE_W :: real
  NODE_H :: real
  GAP_X :: real
  GAP_Y :: real
  fl :: "real \<Rightarrow> real"
  logEl :: "string option"
  data :: workflow
  byId :: "js_id \<rightharpoonup> raw_node"
  edges :: "edge list"
  positions :: "js_id \<rightharpoonup> pos"
  dragged :: "js_id set"

text \<open>\<^verbatim>\<open>Array.isArray(this.data.nodes) ? this.data.nodes : []\<close>\<close>

definition nodes_of :: "workflow_graph \<Rightarrow> raw_node list" where
  "nodes_of s = (case nodes_field (data s) of Some ns \<Rightarrow> ns | None \<Rightarrow> [])"

text \<open>\<^verbatim>\<open>log(msg)\<close>: appends the line when there is a log element.\<close>

definition log :: "string \<Rightarrow> workflow_graph \<Rightarrow> workflow_graph" where
  "log msg s = (case logEl s of None \<Rightarrow> s
                | Some t \<Rightarrow> s\<lparr>logEl := Some (t @ msg @ [CHR 0x0A])\<rparr>)"

section \<open>Load: \<open>setData\<close> and \<open>_validateAndBuildGraph\<close>\<close>

text \<open>\<^verbatim>\<open>!n.id.trim()\<close>: the string is empty once white space and line terminators are
  trimmed, that is, it consists of such characters only.\<close>

definition is_js_space :: "char \<Rightarrow> bool" where
  "is_js_space c = ((of_char c :: nat) \<in> {9, 10, 11, 12, 13, 32, 160})"

definition blank :: "string \<Rightarrow> bool" where
  "blank str = list_all is_js_space str"

text \<open>First loop of \<^verbatim>\<open>_validateAndBuildGraph\<close>: the map filled so far is returned with
  the error, since \<^verbatim>\<open>this.byId\<close> is mutated in place before the \<^verbatim>\<open>throw\<close>.\<close>

fun scan_ids :: "raw_node list \<Rightarrow> (js_id \<rightharpoonup> raw_node) \<Rightarrow> js_error option \<times> (js_id \<rightharpoonup> raw_node)" where
  "scan_ids [] m = (None, m)"
| "scan_ids (n # ns) m =
     (case nid n of
        None \<Rightarrow> (Some InvalidId, m)
      | Some i \<Rightarrow>
          if blank i then (Some InvalidId, m)
          else if m (Some i) \<noteq> None then (Some (DuplicateId i), m)
          else scan_ids ns (m(Some i \<mapsto> n)))"

text \<open>Inner loop over \<^verbatim>\<open>deps\<close> of one node \<open>n\<close> (\<open>t\<close> is \<^verbatim>\<open>n.id\<close>): \<^verbatim>\<open>depId\<close> is
  \<^verbatim>\<open>null\<close> when \<^verbatim>\<open>node_id\<close> is not a string; \<^verbatim>\<open>!depId\<close> holds for \<^verbatim>\<open>null\<close> and for
  the empty string.\<close>

fun add_deps :: "js_id \<Rightarrow> raw_dep list \<Rightarrow> (js_id \<rightharpoonup> raw_node) \<Rightarrow> edge list \<Rightarrow> js_error option \<times> edge list" where
  "add_deps t [] m es = (None, es)"
| "add_deps t (dep # deps) m es =
     (case node_id dep of
        None \<Rightarrow> (Some (UnknownDep t None), es)
      | Some depId \<Rightarrow>
          if depId = [] \<or> m (Some depId) = None then (Some (UnknownDep t (Some depId)), es)
          else add_deps t deps m (es @ [(Some depId, t)]))"

fun build_edges :: "raw_node list \<Rightarrow> (js_id \<rightharpoonup> raw_node) \<Rightarrow> edge list \<Rightarrow> js_error option \<times> edge list" where
  "build_edges [] m es = (None, es)"
| "build_edges (n # ns) m es =
     (case add_deps (nid n) (depends_on n) m es of
        (Some e, es') \<Rightarrow> (Some e, es')
      | (None, es') \<Rightarrow> build_edges ns m es')"

text \<open>A method that can throw returns the exception, if any, with the state it leaves.\<close>

definition validateAndBuildGraph :: "workflow_graph \<Rightarrow> js_error option \<times> workflow_graph" where
  "validateAndBuildGraph s =
     (let nodes = nodes_of s;
          s1 = s\<lparr>byId := Map.empty, edges := []\<rparr>
      in case scan_ids nodes Map.empty of
           (Some e, m) \<Rightarrow> (Some e, s1\<lparr>byId := m\<rparr>)
         | (None, m) \<Rightarrow>
             (case build_edges nodes m [] of
                (err, es) \<Rightarrow> (err, s1\<lparr>byId := m, edges := es\<rparr>)))"

text \<open>\<^verbatim>\<open>setData(workflow)\<close>: \<open>None\<close> is an argument that is falsy or not an object.\<close>

definition setData :: "workflow option \<Rightarrow> workflow_graph \<Rightarrow> js_error option \<times> workflow_graph" where
  "setData wk s =
     validateAndBuildGraph
       (s\<lparr>data := (case wk of Some w \<Rightarrow> w | None \<Rightarrow> Workflow (Some []))\<rparr>)"

text \<open>The state a successful load leaves: validation of its own data succeeds and
  rebuilds exactly its \<open>byId\<close> and \<open>edges\<close>.\<close>

definition loaded :: "workflow_graph \<Rightarrow> bool" where
  "loaded s = (validateAndBuildGraph s = (None, s))"

text \<open>The constructor's state, for given style constants, rounding and log element.\<close>

definition init :: "real \<Rightarrow> real \<Rightarrow> real \<Rightarrow> real \<Rightarrow> (real \<Rightarrow> real) \<Rightarrow> string option \<Rightarrow> workflow_graph" where
  "init nw nh gx gy rounding lg =
     \<lparr>NODE_W = nw, NODE_H = nh, GAP_X = gx, GAP_Y = gy, fl = rounding, logEl = lg,
      data = Workflow (Some []), byId = Map.empty, edges = [],
      positions = Map.empty, dragged = {}\<rparr>"

section \<open>Topological order: \<open>topoSort\<close>\<close>

text \<open>A JavaScript \<^verbatim>\<open>Map\<close> that is iterated is a list of entries in insertion order:
  \<^verbatim>\<open>set\<close> on a present key replaces the value in place, on a new key it appends.
  A \<^verbatim>\<open>Map\<close> that is only read and written by key is a HOL map.\<close>

fun js_set :: "('k \<times> 'v) list \<Rightarrow> 'k \<Rightarrow> 'v \<Rightarrow> ('k \<times> 'v) list" where
  "js_set [] k v = [(k, v)]"
| "js_set ((k', v') # m) k v = (if k' = k then (k, v) # m else (k', v') # js_set m k v)"

definition js_get :: "('k \<times> 'v) list \<Rightarrow> 'k \<Rightarrow> 'v option" where
  "js_get m k = map_of m k"

text \<open>\<^verbatim>\<open>for (const n of nodes) { indeg.set(n.id, 0); out.set(n.id, []); }\<close>\<close>

fun init_tables :: "raw_node list \<Rightarrow> (js_id \<times> int) list \<times> (js_id \<rightharpoonup> js_id list)
    \<Rightarrow> (js_id \<times> int) list \<times> (js_id \<rightharpoonup> js_id list)" where
  "init_tables [] (indeg, out) = (indeg, out)"
| "init_tables (n # ns) (indeg, out) =
     init_tables ns (js_set indeg (nid n) 0, out(nid n \<mapsto> []))"

text \<open>\<^verbatim>\<open>for (const e of this.edges) { indeg.set(e.to, (indeg.get(e.to) || 0) + 1);
  out.get(e.from).push(e.to); }\<close>: the \<^verbatim>\<open>push\<close> on \<^verbatim>\<open>undefined\<close> throws.\<close>

fun count_edges :: "edge list \<Rightarrow> (js_id \<times> int) list \<times> (js_id \<rightharpoonup> js_id list)
    \<Rightarrow> js_error + ((js_id \<times> int) list \<times> (js_id \<rightharpoonup> js_id list))" where
  "count_edges [] (indeg, out) = Inr (indeg, out)"
| "count_edges ((f, t) # es) (indeg, out) =
     (let indeg' = js_set indeg t ((case js_get indeg t of None \<Rightarrow> 0 | Some d \<Rightarrow> d) + 1)
      in case out f of
           None \<Rightarrow> Inl TypeError
         | Some l \<Rightarrow> count_edges es (indeg', out(f \<mapsto> l @ [t])))"

text \<open>\<^verbatim>\<open>for (const [id, d] of indeg.entries()) if (d === 0) q.push(id);\<close>\<close>

definition seeds :: "(js_id \<times> int) list \<Rightarrow> js_id list" where
  "seeds indeg = map fst (filter (\<lambda>(i, d). d = 0) indeg)"

text \<open>The body of \<^verbatim>\<open>for (const nxt of out.get(id))\<close>. Every \<open>nxt\<close> is the \<^verbatim>\<open>to\<close> of an
  edge, so the edge loop has set its \<^verbatim>\<open>indeg\<close>; were it absent, JavaScript would store
  \<^verbatim>\<open>NaN\<close>, which no later decrement brings to \<open>0\<close> and nothing reads otherwise: the
  table is left as it is in that case.\<close>

fun relax :: "js_id list \<Rightarrow> (js_id \<times> int) list \<times> js_id list \<Rightarrow> (js_id \<times> int) list \<times> js_id list" where
  "relax [] (indeg, q) = (indeg, q)"
| "relax (nxt # rest) (indeg, q) =
     (case js_get indeg nxt of
        None \<Rightarrow> relax rest (indeg, q)
      | Some d \<Rightarrow>
          relax rest (js_set indeg nxt (d - 1), if d - 1 = 0 then q @ [nxt] else q))"

text \<open>The number of entries that a decrement can still bring to \<open>0\<close>.\<close>

definition pending :: "(js_id \<times> int) list \<Rightarrow> nat" where
  "pending indeg = length (filter (\<lambda>(i, d). 0 < d) indeg)"

text \<open>\<^verbatim>\<open>while (q.length) { const id = q.shift(); order.push(id); for (...) {...} }\<close>;
  iterating \<^verbatim>\<open>out.get(id)\<close> throws when it is \<^verbatim>\<open>undefined\<close>.\<close>

function drain :: "(js_id \<times> int) list \<Rightarrow> (js_id \<rightharpoonup> js_id list) \<Rightarrow> js_id list \<Rightarrow> js_id list
    \<Rightarrow> js_error + js_id list" where
  "drain indeg out [] order = Inr order"
| "drain indeg out (i # q) order =
     (case out i of
        None \<Rightarrow> Inl TypeError
      | Some ns \<Rightarrow>
          (case relax ns (indeg, q) of
             (indeg', q') \<Rightarrow> drain indeg' out q' (order @ [i])))"
  by pat_completeness auto
termination
proof -
  have dec: "pending (js_set m k (d - 1)) + (if d = 1 then 1 else 0) = pending m"
    if "js_get m k = Some d" for m :: "(js_id \<times> int) list" and k d
    using that by (induction m) (auto simp: pending_def js_get_def)
  have bal: "length q' + pending indeg' = length q + pending indeg"
    if "relax ns (indeg, q) = (indeg', q')" for ns indeg q indeg' q'
    using that
  proof (induction ns arbitrary: indeg q)
    case Nil
    then show ?case by simp
  next
    case (Cons nxt rest)
    show ?case
    proof (cases "js_get indeg nxt")
      case None
      with Cons show ?thesis by simp
    next
      case (Some d)
      with Cons.prems have
        "relax rest (js_set indeg nxt (d - 1), if d - 1 = 0 then q @ [nxt] else q) = (indeg', q')"
        by simp
      from Cons.IH [OF this] dec [OF Some] show ?thesis
        by (auto split: if_splits)
    qed
  qed
  show ?thesis
    apply (relation "measure (\<lambda>(indeg, out, q, order). length q + pending indeg)")
     apply simp
    apply (auto dest!: bal [OF sym])
    done
qed

text \<open>\<^verbatim>\<open>topoSort()\<close> returns \<^verbatim>\<open>{ok, order}\<close>, the pair \<open>(ok, order)\<close>.\<close>

definition topoSort :: "workflow_graph \<Rightarrow> js_error + (bool \<times> js_id list)" where
  "topoSort s =
     (let nodes = nodes_of s
      in case count_edges (edges s) (init_tables nodes ([], Map.empty)) of
           Inl e \<Rightarrow> Inl e
         | Inr (indeg, out) \<Rightarrow>
             (case drain indeg out (seeds indeg) [] of
                Inl e \<Rightarrow> Inl e
              | Inr order \<Rightarrow>
                  if length order \<noteq> length nodes then Inr (False, [])
                  else Inr (True, order)))"

section \<open>Layer depth: \<open>_computeDepths\<close>\<close>

text \<open>\<^verbatim>\<open>(depth.get(k) || 0)\<close>\<close>

definition depth_or_0 :: "(js_id \<rightharpoonup> nat) \<Rightarrow> js_id \<Rightarrow> nat" where
  "depth_or_0 depth k = (case depth k of None \<Rightarrow> 0 | Some v \<Rightarrow> v)"

text \<open>\<^verbatim>\<open>for (const id of order) depth.set(id, 0);\<close>\<close>

fun zero_depths :: "js_id list \<Rightarrow> (js_id \<rightharpoonup> nat) \<Rightarrow> (js_id \<rightharpoonup> nat)" where
  "zero_depths [] depth = depth"
| "zero_depths (i # order) depth = zero_depths order (depth(i \<mapsto> 0))"

text \<open>\<^verbatim>\<open>for (const dep of deps) d = Math.max(d, (depth.get(dep.node_id) || 0) + 1);\<close>\<close>

fun max_dep :: "(js_id \<rightharpoonup> nat) \<Rightarrow> raw_dep list \<Rightarrow> nat \<Rightarrow> nat" where
  "max_dep depth [] d = d"
| "max_dep depth (dep # deps) d = max_dep depth deps (max d (depth_or_0 depth (node_id dep) + 1))"

text \<open>The second loop; \<^verbatim>\<open>node.depends_on\<close> throws when \<^verbatim>\<open>this.byId.get(id)\<close> is
  \<^verbatim>\<open>undefined\<close>.\<close>

fun depth_pass :: "(js_id \<rightharpoonup> raw_node) \<Rightarrow> js_id list \<Rightarrow> (js_id \<rightharpoonup> nat) \<Rightarrow> js_error + (js_id \<rightharpoonup> nat)" where
  "depth_pass m [] depth = Inr depth"
| "depth_pass m (i # order) depth =
     (case m i of
        None \<Rightarrow> Inl TypeError
      | Some node \<Rightarrow> depth_pass m order (depth(i \<mapsto> max_dep depth (depends_on node) 0)))"

definition computeDepths :: "workflow_graph \<Rightarrow> js_id list \<Rightarrow> js_error + (js_id \<rightharpoonup> nat)" where
  "computeDepths s order = depth_pass (byId s) order (zero_depths order Map.empty)"

section \<open>Layout: \<open>relayout\<close> and \<open>_ensurePositionsForMissing\<close>\<close>

text \<open>The loop that groups \<open>order\<close> into \<^verbatim>\<open>layers\<close> and finds \<^verbatim>\<open>maxDepth\<close>.\<close>

fun group_layers :: "(js_id \<rightharpoonup> nat) \<Rightarrow> js_id list \<Rightarrow> (nat \<rightharpoonup> js_id list) \<times> nat \<Rightarrow> (nat \<rightharpoonup> js_id list) \<times> nat" where
  "group_layers depth [] (layers, maxDepth) = (layers, maxDepth)"
| "group_layers depth (i # order) (layers, maxDepth) =
     (let d = depth_or_0 depth i
      in group_layers depth order
           (layers(d \<mapsto> (case layers d of None \<Rightarrow> [] | Some l \<Rightarrow> l) @ [i]), max maxDepth d))"

text \<open>\<^verbatim>\<open>for (let i = 0; i < count; i++)\<close> over one layer; \<open>ids\<close> is what is left of the
  layer from index \<open>i\<close> on, \<open>skip\<close> is \<^verbatim>\<open>!resetDragged && this.dragged.has(id)\<close>.\<close>

fun place_ids :: "(js_id \<Rightarrow> bool) \<Rightarrow> (nat \<Rightarrow> pos) \<Rightarrow> nat \<Rightarrow> js_id list \<Rightarrow> (js_id \<rightharpoonup> pos) \<Rightarrow> (js_id \<rightharpoonup> pos)" where
  "place_ids skip xy i [] ps = ps"
| "place_ids skip xy i (k # ids) ps =
     place_ids skip xy (Suc i) ids (if skip k then ps else ps(k \<mapsto> xy i))"

text \<open>The arithmetic of doubles: the exact result, rounded.\<close>

definition js_add :: "workflow_graph \<Rightarrow> real \<Rightarrow> real \<Rightarrow> real" where
  "js_add s a b = fl s (a + b)"

definition js_sub :: "workflow_graph \<Rightarrow> real \<Rightarrow> real \<Rightarrow> real" where
  "js_sub s a b = fl s (a - b)"

definition js_mul :: "workflow_graph \<Rightarrow> real \<Rightarrow> real \<Rightarrow> real" where
  "js_mul s a b = fl s (a * b)"

definition js_div :: "workflow_graph \<Rightarrow> real \<Rightarrow> real \<Rightarrow> real" where
  "js_div s a b = fl s (a / b)"

text \<open>The position of the \<open>i\<close>-th of \<open>count\<close> nodes of layer \<open>d\<close> at viewport width \<open>w\<close>
  (\<^verbatim>\<open>topPad = 60\<close>, \<^verbatim>\<open>leftPad = 40\<close>):
  \<^verbatim>\<open>totalW = (count * NODE_W) + ((count - 1) * GAP_X)\<close>,
  \<^verbatim>\<open>startX = Math.max(leftPad, (w - totalW) / 2)\<close>,
  \<^verbatim>\<open>x = startX + i * (NODE_W + GAP_X)\<close>, \<^verbatim>\<open>y = topPad + d * (NODE_H + GAP_Y)\<close>;
  \<^verbatim>\<open>count - 1\<close> is between integers and exact.\<close>

definition layer_pos :: "workflow_graph \<Rightarrow> real \<Rightarrow> nat \<Rightarrow> nat \<Rightarrow> nat \<Rightarrow> pos" where
  "layer_pos s w d count i =
     (let totalW = js_add s (js_mul s (real count) (NODE_W s)) (js_mul s (real count - 1) (GAP_X s));
          startX = max 40 (js_div s (js_sub s w totalW) 2)
      in (js_add s startX (js_mul s (real i) (js_add s (NODE_W s) (GAP_X s))),
          js_add s 60 (js_mul s (real d) (js_add s (NODE_H s) (GAP_Y s)))))"

text \<open>\<^verbatim>\<open>for (let d = 0; d <= maxDepth; d++)\<close>, over the list of the values of \<open>d\<close>.\<close>

fun place_layers :: "workflow_graph \<Rightarrow> bool \<Rightarrow> real \<Rightarrow> (nat \<rightharpoonup> js_id list) \<Rightarrow> nat list \<Rightarrow> (js_id \<rightharpoonup> pos) \<Rightarrow> (js_id \<rightharpoonup> pos)" where
  "place_layers s resetDragged w layers [] ps = ps"
| "place_layers s resetDragged w layers (d # ds) ps =
     (let ids = (case layers d of None \<Rightarrow> [] | Some l \<Rightarrow> l);
          count = length ids
      in if count = 0 then place_layers s resetDragged w layers ds ps
         else place_layers s resetDragged w layers ds
                (place_ids (\<lambda>k. \<not> resetDragged \<and> k \<in> dragged s)
                   (layer_pos s w d count) 0 ids ps))"

text \<open>\<^verbatim>\<open>_ensurePositionsForMissing()\<close>: the loop over \<^verbatim>\<open>missing\<close> carries \<open>x\<close>. Its body is
  \<^verbatim>\<open>if (x + NODE_W > w - 40) x = startX; positions.set(id, {x, y}); x += NODE_W + 20;\<close>
  with \<^verbatim>\<open>startX = 40\<close> and \<^verbatim>\<open>y = 40\<close>; the test compares two rounded results, and the
  last statement adds the rounded \<^verbatim>\<open>NODE_W + 20\<close> to \<open>x\<close>.\<close>

fun pack_missing :: "workflow_graph \<Rightarrow> real \<Rightarrow> real \<Rightarrow> js_id list \<Rightarrow> (js_id \<rightharpoonup> pos) \<Rightarrow> (js_id \<rightharpoonup> pos)" where
  "pack_missing s w x [] ps = ps"
| "pack_missing s w x (k # ks) ps =
     (let x1 = (if js_add s x (NODE_W s) > js_sub s w 40 then 40 else x)
      in pack_missing s w (js_add s x1 (js_add s (NODE_W s) 20)) ks (ps(k \<mapsto> (x1, 40))))"

definition missing_ids :: "workflow_graph \<Rightarrow> js_id list" where
  "missing_ids s = map nid (filter (\<lambda>n. positions s (nid n) = None) (nodes_of s))"

definition ensurePositionsForMissing :: "real \<Rightarrow> workflow_graph \<Rightarrow> workflow_graph" where
  "ensurePositionsForMissing w s =
     (let missing = missing_ids s
      in if missing = [] then s
         else s\<lparr>positions := pack_missing s w 40 missing (positions s)\<rparr>)"

text \<open>The state of \<^verbatim>\<open>relayout\<close> when the layered loop is done, before the call of
  \<^verbatim>\<open>_ensurePositionsForMissing\<close>; \<open>s\<close> is the state after the topological check.\<close>

definition layered :: "bool \<Rightarrow> real \<Rightarrow> js_id list \<Rightarrow> (js_id \<rightharpoonup> nat) \<Rightarrow> workflow_graph \<Rightarrow> workflow_graph" where
  "layered resetDragged w order depth s =
     (case group_layers depth order (Map.empty, 0) of
        (layers, maxDepth) \<Rightarrow>
          (let s2 = (if resetDragged then s\<lparr>positions := Map.empty\<rparr> else s)
           in s2\<lparr>positions :=
                 place_layers s2 resetDragged w layers [0 ..< Suc maxDepth] (positions s2)\<rparr>))"

text \<open>\<^verbatim>\<open>relayout({ resetDragged })\<close>, with \<open>w\<close> for \<^verbatim>\<open>this.stage.clientWidth\<close>. The result
  is the exception thrown, if any, and the state left.\<close>

definition relayout :: "bool \<Rightarrow> real \<Rightarrow> workflow_graph \<Rightarrow> js_error option \<times> workflow_graph" where
  "relayout resetDragged w s =
     (let s1 = (if resetDragged then s\<lparr>dragged := {}\<rparr> else s)
      in case topoSort s1 of
           Inl e \<Rightarrow> (Some e, s1)
         | Inr (ok, order) \<Rightarrow>
             if \<not> ok then
               (None, log ''ERROR: cycle detected; layout based on dependencies is not possible.'' s1)
             else
               (case computeDepths s1 order of
                  Inl e \<Rightarrow> (Some e, s1)
                | Inr depth \<Rightarrow>
                    (None, ensurePositionsForMissing w (layered resetDragged w order depth s1))))"

section \<open>Dragging a node\<close>

text \<open>The \<^verbatim>\<open>pointerdown\<close> handler of \<^verbatim>\<open>_attachDrag(el, id)\<close>: a node without a position
  is not picked up; otherwise it joins \<^verbatim>\<open>dragged\<close>. The \<^verbatim>\<open>pointermove\<close> handler of a
  node that was picked up stores the new position \<open>p\<close>.\<close>

definition pointerdown :: "js_id \<Rightarrow> workflow_graph \<Rightarrow> workflow_graph" where
  "pointerdown k s = (case positions s k of None \<Rightarrow> s | Some p \<Rightarrow> s\<lparr>dragged := insert k (dragged s)\<rparr>)"

definition pointermove :: "js_id \<Rightarrow> pos \<Rightarrow> workflow_graph \<Rightarrow> workflow_graph" where
  "pointermove k p s = s\<lparr>positions := (positions s)(k \<mapsto> p)\<rparr>"

section \<open>Notions used in the statements and proofs\<close>

text \<open>The edge list of a node list: one edge per entry of \<^verbatim>\<open>depends_on\<close>, in order.\<close>

definition all_refs :: "raw_node list \<Rightarrow> edge list" where
  "all_refs ns = concat (map (\<lambda>n. map (\<lambda>dep. (node_id dep, nid n)) (depends_on n)) ns)"

text \<open>The node passes the test on \<^verbatim>\<open>n.id\<close>: a string that is not blank.\<close>

definition good_id :: "raw_node \<Rightarrow> bool" where
  "good_id n = (case nid n of None \<Rightarrow> False | Some i \<Rightarrow> \<not> blank i)"

text \<open>The table from each id to the first node of the list with that id.\<close>

definition index_nodes :: "raw_node list \<Rightarrow> (js_id \<rightharpoonup> raw_node)" where
  "index_nodes ns = (\<lambda>k. find (\<lambda>n. nid n = k) ns)"

text \<open>The reference of edge \<open>e\<close> passes the test on \<^verbatim>\<open>depId\<close> against the table \<open>m\<close>.\<close>

definition resolved :: "(js_id \<rightharpoonup> raw_node) \<Rightarrow> edge \<Rightarrow> bool" where
  "resolved m e = (fst e \<noteq> None \<and> fst e \<noteq> Some [] \<and> m (fst e) \<noteq> None)"


text \<open>\<open>index_of xs x\<close> is the least index at which \<open>x\<close> occurs in \<open>xs\<close> (the length of
  \<open>xs\<close> when it does not occur).\<close>

fun index_of :: "'a list \<Rightarrow> 'a \<Rightarrow> nat" where
  "index_of [] x = 0"
| "index_of (y # ys) x = (if y = x then 0 else Suc (index_of ys x))"

definition node_ids :: "workflow_graph \<Rightarrow> js_id list" where
  "node_ids s = map nid (nodes_of s)"

text \<open>The successors of \<open>k\<close> in edge order, and the number of edges into \<open>k\<close> whose source
  is not yet in \<open>order\<close>.\<close>

definition succs :: "edge list \<Rightarrow> js_id \<Rightarrow> js_id list" where
  "succs es k = map snd (filter (\<lambda>e. fst e = k) es)"

definition remaining :: "edge list \<Rightarrow> js_id list \<Rightarrow> js_id \<Rightarrow> int" where
  "remaining es order k = int (length (filter (\<lambda>e. snd e = k \<and> fst e \<notin> set order) es))"

text \<open>The invariant of the \<^verbatim>\<open>while\<close> loop of \<^verbatim>\<open>topoSort\<close>.\<close>

definition kahn_inv :: "js_id list \<Rightarrow> edge list \<Rightarrow> (js_id \<times> int) list \<Rightarrow> js_id list \<Rightarrow> js_id list \<Rightarrow> bool" where
  "kahn_inv V es indeg q order =
     (distinct (order @ q) \<and> set (order @ q) \<subseteq> set V
      \<and> (\<forall>k\<in>set V. js_get indeg k = Some (remaining es order k))
      \<and> (\<forall>k\<in>set V. k \<in> set (order @ q) \<longleftrightarrow> remaining es order k = 0)
      \<and> (\<forall>e\<in>set es. snd e \<in> set order \<longrightarrow>
            fst e \<in> set order \<and> index_of order (fst e) < index_of order (snd e)))"

text \<open>In \<open>todo\<close>, every identifier has its node in \<open>m\<close> and no dependency of that node
  stands at or after it.\<close>

fun deps_before :: "(js_id \<rightharpoonup> raw_node) \<Rightarrow> js_id list \<Rightarrow> bool" where
  "deps_before m [] = True"
| "deps_before m (k # rest) =
     ((\<exists>node. m k = Some node \<and> (\<forall>dep\<in>set (depends_on node). node_id dep \<notin> set (k # rest)))
      \<and> deps_before m rest)"

text \<open>The \<open>x\<close> of the \<open>j\<close>-th node placed by the packing pass that starts at \<open>x\<close>: left to
  right in steps of the rounded \<open>NODE_W + 20\<close>, back to \<open>40\<close> when the rounded \<open>x + NODE_W\<close>
  exceeds the rounded \<open>w - 40\<close>.\<close>

fun fallback_x :: "workflow_graph \<Rightarrow> real \<Rightarrow> real \<Rightarrow> nat \<Rightarrow> real" where
  "fallback_x s w x 0 = (if js_add s x (NODE_W s) > js_sub s w 40 then 40 else x)"
| "fallback_x s w x (Suc j) =
     fallback_x s w
       (js_add s (if js_add s x (NODE_W s) > js_sub s w 40 then 40 else x) (js_add s (NODE_W s) 20)) j"

text \<open>What the layered loop writes, as a table of its own.\<close>

definition layer_table :: "workflow_graph \<Rightarrow> bool \<Rightarrow> real \<Rightarrow> js_id list \<Rightarrow> (js_id \<rightharpoonup> nat) \<Rightarrow> (js_id \<rightharpoonup> pos)" where
  "layer_table s r w order depth =
     (case group_layers depth order (Map.empty, 0) of
        (layers, maxDepth) \<Rightarrow> place_layers s r w layers [0 ..< Suc maxDepth] Map.empty)"

text \<open>Layer \<open>d\<close>: the identifiers of \<open>order\<close> whose depth is \<open>d\<close>, in the order of \<open>order\<close>.\<close>

definition layer_of :: "(js_id \<rightharpoonup> nat) \<Rightarrow> js_id list \<Rightarrow> nat \<Rightarrow> js_id list" where
  "layer_of depth order d = filter (\<lambda>k. depth_or_0 depth k = d) order"

section \<open>Example states\<close>

text \<open>A fresh object with the default style constants and an empty log element; the
  chain \<open>a \<rightarrow> b\<close>; a workflow whose second reference does not resolve. Every number
  that the examples compute is an integer that a double holds exactly, so the
  rounding of the examples is the identity.\<close>

definition ex_init :: workflow_graph where
  "ex_init = init 180 60 40 80 (\<lambda>x. x) (Some [])"

definition ex_chain :: workflow where
  "ex_chain = Workflow (Some [Node (Some ''a'') [], Node (Some ''b'') [Dep (Some ''a'')]])"

definition ex_unresolved :: workflow where
  "ex_unresolved = Workflow (Some [Node (Some ''c'') [],
      Node (Some ''d'') [Dep (Some ''c''), Dep (Some ''missing'')]])"

text \<open>The chain loaded, and the failing load over it.\<close>

definition ex_loaded :: workflow_graph where
  "ex_loaded = snd (setData (Some ex_chain) ex_init)"

definition ex_failed :: "js_error option \<times> workflow_graph" where
  "ex_failed = setData (Some ex_unresolved) ex_loaded"

text \<open>Two nodes that depend on each other, and the state with them loaded.\<close>

definition ex_cycle :: workflow where
  "ex_cycle = Workflow (Some [Node (Some ''a'') [Dep (Some ''b'')],
      Node (Some ''b'') [Dep (Some ''a'')]])"

definition ex_cyclic :: workflow_graph where
  "ex_cyclic = snd (setData (Some ex_cycle) ex_init)"

text \<open>The graph of the end-to-end example: \<open>A\<close>; \<open>B\<close> and \<open>C\<close> depend on \<open>A\<close>; \<open>D\<close> depends on
  \<open>B\<close> and \<open>C\<close>.\<close>

definition ex_diamond :: workflow where
  "ex_diamond = Workflow (Some [Node (Some ''A'') [],
      Node (Some ''B'') [Dep (Some ''A'')], Node (Some ''C'') [Dep (Some ''A'')],
      Node (Some ''D'') [Dep (Some ''B''), Dep (Some ''C'')]])"

definition ex_diamond_loaded :: workflow_graph where
  "ex_diamond_loaded = snd (setData (Some ex_diamond) ex_init)"

text \<open>The chain \<open>a \<rightarrow> b\<close> laid out at width 800; then \<open>a\<close> dragged to \<open>(10, 20)\<close>; then the
  cyclic workflow \<open>ex_cycle\<close> loaded over it.\<close>

definition ex_placed :: workflow_graph where
  "ex_placed = snd (relayout False 800 ex_loaded)"

definition ex_pinned :: workflow_graph where
  "ex_pinned = pointermove (Some ''a'') (10, 20) (pointerdown (Some ''a'') ex_placed)"

definition ex_reloaded :: workflow_graph where
  "ex_reloaded = snd (setData (Some ex_cycle) ex_pinned)"

text \<open>The chain with \<open>b\<close> in the dragged set and no position yet.\<close>

definition ex_unplaced :: workflow_graph where
  "ex_unplaced = ex_loaded\<lparr>dragged := {Some ''b''}\<rparr>"

section \<open>Properties of the load\<close>

lemma scan_ids_step:
  "scan_ids (n # ns) m = (r, m') \<Longrightarrow> nid n = Some i \<Longrightarrow> \<not> blank i \<Longrightarrow> m (Some i) = None
     \<Longrightarrow> scan_ids ns (m(Some i \<mapsto> n)) = (r, m')"
  apply (subst (asm) scan_ids.simps)
  apply (simp only: option.case if_False if_True not_not refl simp_thms)
  done

lemma scan_ids_prefix:
  "scan_ids ns m = (r, m') \<Longrightarrow>
     \<exists>j\<le>length ns. (r = None \<longleftrightarrow> j = length ns)
       \<and> m' = m ++ index_nodes (take j ns)
       \<and> list_all good_id (take j ns)
       \<and> distinct (map nid (take j ns))
       \<and> (\<forall>n\<in>set (take j ns). m (nid n) = None)
       \<and> (j < length ns \<longrightarrow> \<not> good_id (ns ! j) \<or> m' (nid (ns ! j)) \<noteq> None)
       \<and> (j < length ns \<longrightarrow>
            r = Some (if good_id (ns ! j) then DuplicateId (the (nid (ns ! j))) else InvalidId))"
proof (induction ns arbitrary: m)
  case Nil
  then show ?case by (simp add: index_nodes_def)
next
  case (Cons n ns)
  show ?case
  proof (cases "good_id n \<and> m (nid n) = None")
    case False
    with Cons.prems have "r \<noteq> None" "m' = m"
      "r = Some (if good_id n then DuplicateId (the (nid n)) else InvalidId)"
      by (auto simp: good_id_def split: option.splits if_splits)
    with False show ?thesis
      by (intro exI [of _ 0]) (simp add: index_nodes_def)
  next
    case True
    then obtain i where i: "nid n = Some i" "\<not> blank i" "m (Some i) = None"
      by (auto simp: good_id_def split: option.splits)
    from scan_ids_step [OF Cons.prems i]
    have "scan_ids ns (m(Some i \<mapsto> n)) = (r, m')" .
    from Cons.IH [OF this] obtain j where j: "j \<le> length ns" "r = None \<longleftrightarrow> j = length ns"
      "m' = m(Some i \<mapsto> n) ++ index_nodes (take j ns)"
      "list_all good_id (take j ns)" "distinct (map nid (take j ns))"
      "\<forall>x\<in>set (take j ns). (m(Some i \<mapsto> n)) (nid x) = None"
      "j < length ns \<longrightarrow> \<not> good_id (ns ! j) \<or> m' (nid (ns ! j)) \<noteq> None"
      "j < length ns \<longrightarrow>
         r = Some (if good_id (ns ! j) then DuplicateId (the (nid (ns ! j))) else InvalidId)"
      by (elim exE conjE) (rule that)
    have notin: "Some i \<notin> nid ` set (take j ns)"
      using j(6) by (auto split: if_splits)
    have "m' = m ++ index_nodes (take (Suc j) (n # ns))"
    proof
      fix k
      show "m' k = (m ++ index_nodes (take (Suc j) (n # ns))) k"
      proof (cases "k = Some i")
        case True
        have "index_nodes (take j ns) (Some i) = None"
          using notin by (force simp: index_nodes_def find_None_iff)
        then show ?thesis using True i j(3)
          by (simp add: map_add_def index_nodes_def)
      next
        case False
        then show ?thesis using i j(3)
          by (simp add: map_add_def index_nodes_def split: option.splits)
      qed
    qed
    moreover have "\<forall>x\<in>set (take (Suc j) (n # ns)). m (nid x) = None"
      using j(6) i by (auto split: if_splits)
    moreover have "distinct (map nid (take (Suc j) (n # ns)))"
      using j(5) notin i by auto
    moreover have "list_all good_id (take (Suc j) (n # ns))"
      using j(4) True by simp
    moreover have "Suc j < length (n # ns) \<longrightarrow>
        \<not> good_id ((n # ns) ! Suc j) \<or> m' (nid ((n # ns) ! Suc j)) \<noteq> None"
      using j(7) by simp
    moreover have "Suc j < length (n # ns) \<longrightarrow>
        r = Some (if good_id ((n # ns) ! Suc j) then DuplicateId (the (nid ((n # ns) ! Suc j)))
                  else InvalidId)"
      using j(8) by simp
    moreover have "Suc j \<le> length (n # ns)" "(r = None) = (Suc j = length (n # ns))"
      using j(1,2) by simp_all
    ultimately show ?thesis
      apply (intro exI [of _ "Suc j"] conjI)
      apply assumption+
      done
  qed
qed

lemma add_deps_prefix:
  "add_deps t deps m es = (r, es') \<Longrightarrow>
     \<exists>j\<le>length deps. (r = None \<longleftrightarrow> j = length deps)
       \<and> es' = es @ map (\<lambda>dep. (node_id dep, t)) (take j deps)
       \<and> list_all (\<lambda>dep. resolved m (node_id dep, t)) (take j deps)
       \<and> (j < length deps \<longrightarrow> \<not> resolved m (node_id (deps ! j), t))
       \<and> (j < length deps \<longrightarrow> r = Some (UnknownDep t (node_id (deps ! j))))"
proof (induction deps arbitrary: es)
  case Nil
  then show ?case by simp
next
  case (Cons dep deps)
  show ?case
  proof (cases "resolved m (node_id dep, t)")
    case False
    with Cons.prems have "r \<noteq> None" "es' = es" "r = Some (UnknownDep t (node_id dep))"
      by (auto simp: resolved_def split: option.splits if_splits)
    with False show ?thesis by (intro exI [of _ 0]) auto
  next
    case True
    with Cons.prems have "add_deps t deps m (es @ [(node_id dep, t)]) = (r, es')"
      by (auto simp: resolved_def split: option.splits if_splits)
    from Cons.IH [OF this] obtain j where "j \<le> length deps" "r = None \<longleftrightarrow> j = length deps"
      "es' = (es @ [(node_id dep, t)]) @ map (\<lambda>dep. (node_id dep, t)) (take j deps)"
      "list_all (\<lambda>dep. resolved m (node_id dep, t)) (take j deps)"
      "j < length deps \<longrightarrow> \<not> resolved m (node_id (deps ! j), t)"
      "j < length deps \<longrightarrow> r = Some (UnknownDep t (node_id (deps ! j)))"
      by blast
    with True show ?thesis by (intro exI [of _ "Suc j"]) auto
  qed
qed

lemma build_edges_prefix:
  "build_edges ns m es = (r, es') \<Longrightarrow>
     \<exists>j\<le>length (all_refs ns). (r = None \<longleftrightarrow> j = length (all_refs ns))
       \<and> es' = es @ take j (all_refs ns)
       \<and> list_all (resolved m) (take j (all_refs ns))
       \<and> (j < length (all_refs ns) \<longrightarrow> \<not> resolved m (all_refs ns ! j))
       \<and> (j < length (all_refs ns) \<longrightarrow>
            r = Some (UnknownDep (snd (all_refs ns ! j)) (fst (all_refs ns ! j))))"
proof (induction ns arbitrary: es)
  case Nil
  then show ?case by (simp add: all_refs_def)
next
  case (Cons n ns)
  let ?here = "map (\<lambda>dep. (node_id dep, nid n)) (depends_on n)"
  have refs: "all_refs (n # ns) = ?here @ all_refs ns" by (simp add: all_refs_def)
  obtain r1 es1 where a: "add_deps (nid n) (depends_on n) m es = (r1, es1)" by force
  from add_deps_prefix [OF a] obtain j where j: "j \<le> length (depends_on n)"
    "r1 = None \<longleftrightarrow> j = length (depends_on n)"
    "es1 = es @ take j ?here"
    "list_all (\<lambda>dep. resolved m (node_id dep, nid n)) (take j (depends_on n))"
    "j < length (depends_on n) \<longrightarrow> \<not> resolved m (node_id (depends_on n ! j), nid n)"
    "j < length (depends_on n) \<longrightarrow> r1 = Some (UnknownDep (nid n) (node_id (depends_on n ! j)))"
    by (auto simp: take_map)
  show ?case
  proof (cases r1)
    case (Some e)
    with a Cons.prems have "r = Some e" "es' = es1" by auto
    moreover from Some j have "j < length (depends_on n)" by auto
    moreover note jlt = \<open>j < length (depends_on n)\<close>
    have t1: "take j (all_refs (n # ns)) = take j ?here"
      using jlt refs by simp
    have t2: "all_refs (n # ns) ! j = (node_id (depends_on n ! j), nid n)"
      using jlt refs by (simp add: nth_append)
    have "list_all (resolved m) (take j ?here)"
      using j(4) by (simp add: list_all_iff take_map)
    with t1 t2 j jlt refs calculation Some show ?thesis
      by (intro exI [of _ j]) simp
  next
    case None
    with a Cons.prems have "build_edges ns m es1 = (r, es')" by simp
    from Cons.IH [OF this] obtain i where i: "i \<le> length (all_refs ns)"
      "r = None \<longleftrightarrow> i = length (all_refs ns)"
      "es' = es1 @ take i (all_refs ns)"
      "list_all (resolved m) (take i (all_refs ns))"
      "i < length (all_refs ns) \<longrightarrow> \<not> resolved m (all_refs ns ! i)"
      "i < length (all_refs ns) \<longrightarrow>
         r = Some (UnknownDep (snd (all_refs ns ! i)) (fst (all_refs ns ! i)))"
      by blast
    from None j have jl: "j = length (depends_on n)" by simp
    have t1: "take (j + i) (all_refs (n # ns)) = ?here @ take i (all_refs ns)"
      using jl refs by simp
    have t2: "i < length (all_refs ns) \<Longrightarrow> all_refs (n # ns) ! (j + i) = all_refs ns ! i"
      using jl refs by (simp add: nth_append)
    have t3: "list_all (resolved m) ?here"
      using j(4) jl by (simp add: list_all_iff)
    have "j + i \<le> length (all_refs (n # ns))" using i(1) jl refs by simp
    moreover have "(r = None) = (j + i = length (all_refs (n # ns)))"
      using i(2) jl refs by simp
    moreover have "es' = es @ take (j + i) (all_refs (n # ns))"
      using i(3) j(3) jl t1 by simp
    moreover have "list_all (resolved m) (take (j + i) (all_refs (n # ns)))"
      using t1 t3 i(4) by simp
    moreover have "j + i < length (all_refs (n # ns)) \<longrightarrow> \<not> resolved m (all_refs (n # ns) ! (j + i))"
      using i(5) t2 jl refs by simp
    moreover have "j + i < length (all_refs (n # ns)) \<longrightarrow>
        r = Some (UnknownDep (snd (all_refs (n # ns) ! (j + i))) (fst (all_refs (n # ns) ! (j + i))))"
      using i(6) t2 jl refs by simp
    ultimately show ?thesis by blast
  qed
qed

lemma validate_cases:
  assumes "validateAndBuildGraph s = (r, s')"
  obtains (ids) e m where "scan_ids (nodes_of s) Map.empty = (Some e, m)" "r = Some e"
      "s' = s\<lparr>byId := m, edges := []\<rparr>" "byId s' = m" "edges s' = []"
    | (deps) m es where "scan_ids (nodes_of s) Map.empty = (None, m)"
      "build_edges (nodes_of s) m [] = (r, es)" "s' = s\<lparr>byId := m, edges := es\<rparr>"
      "byId s' = m" "edges s' = es"
proof (cases "scan_ids (nodes_of s) Map.empty")
  case (Pair r1 m)
  show ?thesis
  proof (cases r1)
    case None
    obtain r2 es where b: "build_edges (nodes_of s) m [] = (r2, es)" by force
    with assms Pair None have "r = r2" "s' = s\<lparr>byId := m, edges := es\<rparr>"
      by (auto simp: validateAndBuildGraph_def)
    with Pair None b show ?thesis by (intro deps [of m es]) simp_all
  next
    case (Some e)
    with assms Pair have "r = Some e" "s' = s\<lparr>byId := m, edges := []\<rparr>"
      by (auto simp: validateAndBuildGraph_def)
    with Pair Some show ?thesis by (intro ids [of e m]) simp_all
  qed
qed

lemma validate_frame:
  assumes "validateAndBuildGraph s = (r, s')"
  shows "data s' = data s" "positions s' = positions s" "dragged s' = dragged s"
    "nodes_of s' = nodes_of s" "logEl s' = logEl s"
    "NODE_W s' = NODE_W s" "NODE_H s' = NODE_H s" "GAP_X s' = GAP_X s" "GAP_Y s' = GAP_Y s"
    "fl s' = fl s"
  using assms by (cases rule: validate_cases; simp add: nodes_of_def)+

lemma validate_ok:
  assumes "validateAndBuildGraph s = (None, s')"
  obtains m es where "scan_ids (nodes_of s) Map.empty = (None, m)"
    "build_edges (nodes_of s) m [] = (None, es)" "s' = s\<lparr>byId := m, edges := es\<rparr>"
    "byId s' = m" "edges s' = es"
  using assms
proof (cases rule: validate_cases)
  case (ids e m)
  from ids(2) show ?thesis by simp
next
  case (deps m es)
  then show ?thesis by (rule that)
qed

lemma loaded_facts:
  assumes "loaded s"
  shows "byId s = index_nodes (nodes_of s)"
    and "list_all good_id (nodes_of s)"
    and "distinct (map nid (nodes_of s))"
    and "edges s = all_refs (nodes_of s)"
    and "list_all (resolved (byId s)) (edges s)"
proof -
  from assms have v: "validateAndBuildGraph s = (None, s)" by (simp add: loaded_def)
  from v obtain m es where m: "scan_ids (nodes_of s) Map.empty = (None, m)"
    and es: "build_edges (nodes_of s) m [] = (None, es)"
    and bm: "byId s = m" and ee: "edges s = es"
    by (rule validate_ok)
  from scan_ids_prefix [OF m] obtain j where j: "j \<le> length (nodes_of s)" "j = length (nodes_of s)"
    "m = Map.empty ++ index_nodes (take j (nodes_of s))"
    "list_all good_id (take j (nodes_of s))" "distinct (map nid (take j (nodes_of s)))"
    by (elim exE conjE) simp
  from build_edges_prefix [OF es] obtain k where k: "k = length (all_refs (nodes_of s))"
    "es = [] @ take k (all_refs (nodes_of s))" "list_all (resolved m) (take k (all_refs (nodes_of s)))"
    by (elim exE conjE) simp
  show "byId s = index_nodes (nodes_of s)" using bm j by simp
  show "list_all good_id (nodes_of s)" using j by simp
  show "distinct (map nid (nodes_of s))" using j by simp
  show "edges s = all_refs (nodes_of s)" using ee k by simp
  show "list_all (resolved (byId s)) (edges s)" using bm ee k by simp
qed

lemma setData_loaded:
  assumes "setData wk s = (None, s')"
  shows "loaded s'"
proof -
  let ?s0 = "s\<lparr>data := (case wk of Some w \<Rightarrow> w | None \<Rightarrow> Workflow (Some []))\<rparr>"
  from assms have v: "validateAndBuildGraph ?s0 = (None, s')" by (simp only: setData_def)
  from v obtain m es where m: "scan_ids (nodes_of ?s0) Map.empty = (None, m)"
    and es: "build_edges (nodes_of ?s0) m [] = (None, es)"
    and s': "s' = ?s0\<lparr>byId := m, edges := es\<rparr>"
    by (rule validate_ok)
  have n: "nodes_of s' = nodes_of ?s0" by (subst s') (simp add: nodes_of_def)
  have u: "s'\<lparr>byId := Map.empty, edges := []\<rparr>\<lparr>byId := m, edges := es\<rparr> = s'"
    by (subst (1 2) s') simp
  show ?thesis
    unfolding loaded_def validateAndBuildGraph_def Let_def n
    by (simp only: m es prod.case option.case u)
qed

section \<open>The loaded examples\<close>

lemmas ex_simps = ex_init_def ex_chain_def ex_unresolved_def init_def setData_def
  validateAndBuildGraph_def nodes_of_def blank_def is_js_space_def

lemma ex_loaded_eq:
  "ex_loaded = ex_init\<lparr>data := ex_chain,
     byId := [Some ''a'' \<mapsto> Node (Some ''a'') [], Some ''b'' \<mapsto> Node (Some ''b'') [Dep (Some ''a'')]],
     edges := [(Some ''a'', Some ''b'')]\<rparr>"
  by (simp add: ex_loaded_def ex_simps)

lemma ex_loaded_loaded: "loaded ex_loaded"
  unfolding ex_loaded_def
  by (rule setData_loaded [where wk = "Some ex_chain" and s = ex_init]) (simp add: ex_simps)

lemma ex_failed_eq:
  "ex_failed = (Some (UnknownDep (Some ''d'') (Some ''missing'')),
     ex_init\<lparr>data := ex_unresolved,
       byId := [Some ''c'' \<mapsto> Node (Some ''c'') [],
                Some ''d'' \<mapsto> Node (Some ''d'') [Dep (Some ''c''), Dep (Some ''missing'')]],
       edges := [(Some ''c'', Some ''d'')]\<rparr>)"
  unfolding ex_failed_def ex_loaded_eq by (simp add: ex_simps)

section \<open>Correctness of \<open>topoSort\<close>\<close>

lemma index_of_less: "x \<in> set xs \<Longrightarrow> index_of xs x < length xs"
  by (induction xs) auto

lemma index_of_nth: "x \<in> set xs \<Longrightarrow> xs ! index_of xs x = x"
  by (induction xs) auto

lemma index_of_append:
  "index_of (xs @ ys) x = (if x \<in> set xs then index_of xs x else length xs + index_of ys x)"
  by (induction xs) auto

lemma js_get_js_set: "js_get (js_set m k v) k' = (if k' = k then Some v else js_get m k')"
  by (induction m) (auto simp: js_get_def)

lemma js_set_new: "k \<notin> fst ` set m \<Longrightarrow> js_set m k v = m @ [(k, v)]"
  by (induction m) auto

lemma map_fst_js_set: "k \<in> fst ` set m \<Longrightarrow> map fst (js_set m k v) = map fst m"
  by (induction m) force+

lemma js_get_key: "js_get m k \<noteq> None \<longleftrightarrow> k \<in> fst ` set m"
  by (simp add: js_get_def map_of_eq_None_iff)

lemma relax_get:
  "js_get (fst (relax ns (indeg, q))) k
     = map_option (\<lambda>d. d - int (count_list ns k)) (js_get indeg k)"
proof (induction ns arbitrary: indeg q)
  case Nil
  show ?case by (simp add: option.map_ident)
next
  case (Cons nxt rest)
  show ?case
  proof (cases "js_get indeg nxt")
    case None
    then have "k = nxt \<Longrightarrow> js_get indeg k = None" by simp
    with None Cons.IH [of indeg q] show ?thesis
      by (cases "k = nxt") simp_all
  next
    case (Some d)
    then show ?thesis
      using Cons.IH [of "js_set indeg nxt (d - 1)" "if d - 1 = 0 then q @ [nxt] else q"]
      by (cases "k = nxt") (simp_all add: js_get_js_set)
  qed
qed

lemma relax_queue:
  assumes "\<forall>k\<in>set ns. \<exists>d. js_get indeg k = Some d \<and> int (count_list ns k) \<le> d"
  shows "\<exists>zs. snd (relax ns (indeg, q)) = q @ zs \<and> distinct zs
           \<and> set zs = {k \<in> set ns. js_get indeg k = Some (int (count_list ns k))}"
  using assms
proof (induction ns arbitrary: indeg q)
  case Nil
  show ?case by simp
next
  case (Cons nxt rest)
  from Cons.prems obtain d where d: "js_get indeg nxt = Some d"
    "int (count_list rest nxt) + 1 \<le> d" by auto
  let ?indeg = "js_set indeg nxt (d - 1)"
  let ?q = "if d - 1 = 0 then q @ [nxt] else q"
  have pre: "\<forall>k\<in>set rest. \<exists>d'. js_get ?indeg k = Some d' \<and> int (count_list rest k) \<le> d'"
  proof
    fix k assume k: "k \<in> set rest"
    show "\<exists>d'. js_get ?indeg k = Some d' \<and> int (count_list rest k) \<le> d'"
    proof (cases "k = nxt")
      case True
      with d show ?thesis by (simp add: js_get_js_set)
    next
      case False
      with Cons.prems k show ?thesis by (auto simp: js_get_js_set)
    qed
  qed
  from Cons.IH [OF pre, of ?q] obtain zs where zs: "snd (relax rest (?indeg, ?q)) = ?q @ zs"
    "distinct zs" "set zs = {k \<in> set rest. js_get ?indeg k = Some (int (count_list rest k))}"
    by (elim exE conjE) (rule that)
  have step: "relax (nxt # rest) (indeg, q) = relax rest (?indeg, ?q)"
    using d by simp
  have other: "\<And>k. k \<noteq> nxt \<Longrightarrow>
      (js_get ?indeg k = Some (int (count_list rest k)))
        = (js_get indeg k = Some (int (count_list (nxt # rest) k)))"
    by (simp add: js_get_js_set)
  show ?case
  proof (cases "d - 1 = 0")
    case True
    with d have c0: "count_list rest nxt = 0" and d1: "d = 1" by simp_all
    then have nr: "nxt \<notin> set rest" by (simp add: count_list_0_iff)
    with zs(3) have nz: "nxt \<notin> set zs" by simp
    have "set (nxt # zs) = {k \<in> set (nxt # rest). js_get indeg k = Some (int (count_list (nxt # rest) k))}"
      (is "?L = ?R")
    proof (intro set_eqI iffI)
      fix k assume "k \<in> ?L"
      then show "k \<in> ?R"
        using zs(3) nr d d1 c0 other [of k] by (cases "k = nxt") auto
    next
      fix k assume "k \<in> ?R"
      then show "k \<in> ?L"
        using zs(3) nr other [of k] by (cases "k = nxt") auto
    qed
    moreover have "snd (relax (nxt # rest) (indeg, q)) = q @ (nxt # zs)"
      using step zs(1) True by simp
    moreover have "distinct (nxt # zs)" using nz zs(2) by simp
    ultimately show ?thesis by (intro exI [of _ "nxt # zs"] conjI)
  next
    case False
    have "set zs = {k \<in> set (nxt # rest). js_get indeg k = Some (int (count_list (nxt # rest) k))}"
      (is "?L = ?R")
    proof (intro set_eqI iffI)
      fix k assume "k \<in> ?L"
      then show "k \<in> ?R"
        using zs(3) d other [of k] by (cases "k = nxt") (auto simp: js_get_js_set)
    next
      fix k assume k: "k \<in> ?R"
      show "k \<in> ?L"
      proof (cases "k = nxt")
        case True
        with k d have dd: "d = int (count_list rest nxt) + 1" by simp
        with False have "count_list rest nxt \<noteq> 0" by simp
        then have "nxt \<in> set rest" by (simp add: count_list_0_iff)
        with True dd zs(3) show ?thesis by (simp add: js_get_js_set)
      next
        case False
        with k zs(3) other [of k] show ?thesis by auto
      qed
    qed
    moreover have "snd (relax (nxt # rest) (indeg, q)) = q @ zs"
      using step zs(1) False by simp
    ultimately show ?thesis using zs(2) by (intro exI [of _ zs] conjI)
  qed
qed

lemma count_succs:
  "count_list (succs es i) k = length (filter (\<lambda>e. fst e = i \<and> snd e = k) es)"
  by (induction es) (auto simp: succs_def)

lemma remaining_step:
  assumes "i \<notin> set order"
  shows "remaining es (order @ [i]) k = remaining es order k - int (count_list (succs es i) k)"
proof -
  have "length (filter (\<lambda>e. snd e = k \<and> fst e \<notin> set order) es)
      = length (filter (\<lambda>e. snd e = k \<and> fst e \<notin> set (order @ [i])) es)
        + length (filter (\<lambda>e. fst e = i \<and> snd e = k) es)"
    using assms by (induction es) auto
  then show ?thesis by (simp add: remaining_def count_succs)
qed

lemma remaining_nonneg: "0 \<le> remaining es order k"
  by (simp add: remaining_def)

lemma remaining_0_iff:
  "remaining es order k = 0 \<longleftrightarrow> (\<forall>e\<in>set es. snd e = k \<longrightarrow> fst e \<in> set order)"
  by (auto simp: remaining_def filter_empty_conv)

lemma kahn_step:
  assumes inv: "kahn_inv V es indeg (i # q) order"
    and wf: "\<forall>e\<in>set es. fst e \<in> set V \<and> snd e \<in> set V"
    and rel: "relax (succs es i) (indeg, q) = (indeg', q')"
  shows "kahn_inv V es indeg' q' (order @ [i])"
proof -
  let ?ns = "succs es i"
  let ?order = "order @ [i]"
  from inv have D: "distinct (order @ i # q)" and S: "set (order @ i # q) \<subseteq> set V"
    and G: "\<And>k. k \<in> set V \<Longrightarrow> js_get indeg k = Some (remaining es order k)"
    and Z: "\<And>k. k \<in> set V \<Longrightarrow> k \<in> set (order @ i # q) \<longleftrightarrow> remaining es order k = 0"
    and T: "\<And>e. e \<in> set es \<Longrightarrow> snd e \<in> set order \<Longrightarrow>
          fst e \<in> set order \<and> index_of order (fst e) < index_of order (snd e)"
    by (simp_all add: kahn_inv_def)
  from D have io: "i \<notin> set order" by simp
  from S have iV: "i \<in> set V" by simp
  have nsV: "set ?ns \<subseteq> set V" using wf by (auto simp: succs_def)
  note rs = remaining_step [OF io, of es]
  have G': "js_get indeg' k = Some (remaining es ?order k)" if "k \<in> set V" for k
    using relax_get [of ?ns indeg q k] rel G [OF that] rs [of k] by simp
  have pre: "\<forall>k\<in>set ?ns. \<exists>d. js_get indeg k = Some d \<and> int (count_list ?ns k) \<le> d"
  proof
    fix k assume "k \<in> set ?ns"
    with nsV have "k \<in> set V" by auto
    from G [OF this] rs [of k] remaining_nonneg [of es ?order k]
    show "\<exists>d. js_get indeg k = Some d \<and> int (count_list ?ns k) \<le> d" by simp
  qed
  from relax_queue [OF pre, of q] rel obtain zs where q': "q' = q @ zs" and dz: "distinct zs"
    and sz: "set zs = {k \<in> set ?ns. js_get indeg k = Some (int (count_list ?ns k))}"
    by (elim exE conjE) simp
  have zs_iff: "k \<in> set zs \<longleftrightarrow> k \<in> set ?ns \<and> remaining es ?order k = 0" for k
  proof (cases "k \<in> set ?ns")
    case True
    with nsV have "k \<in> set V" by auto
    from G [OF this] rs [of k] True sz show ?thesis by auto
  next
    case False
    with sz show ?thesis by simp
  qed
  have pos: "0 < remaining es order k" if "k \<in> set ?ns" for k
  proof -
    from that have "count_list ?ns k \<noteq> 0" by (simp add: count_list_0_iff)
    then have "0 < count_list ?ns k" by simp
    with rs [of k] remaining_nonneg [of es ?order k] show ?thesis by simp
  qed
  have fresh: "k \<notin> set (order @ i # q)" if "k \<in> set zs" for k
  proof -
    from that zs_iff have kn: "k \<in> set ?ns" by simp
    with nsV have "k \<in> set V" by auto
    from Z [OF this] pos [OF kn] show ?thesis by simp
  qed
  have D': "distinct (?order @ q')"
    using D dz fresh unfolding q' by auto
  have S': "set (?order @ q') \<subseteq> set V"
    using S nsV sz unfolding q' by auto
  have Z': "k \<in> set (?order @ q') \<longleftrightarrow> remaining es ?order k = 0" if kV: "k \<in> set V" for k
  proof
    assume "k \<in> set (?order @ q')"
    then consider "k \<in> set (order @ i # q)" | "k \<in> set zs" unfolding q' by auto
    then show "remaining es ?order k = 0"
    proof cases
      case 1
      with Z [OF kV] have "remaining es order k = 0" by simp
      with rs [of k] remaining_nonneg [of es ?order k] show ?thesis by simp
    next
      case 2
      with zs_iff show ?thesis by simp
    qed
  next
    assume r0: "remaining es ?order k = 0"
    show "k \<in> set (?order @ q')"
    proof (cases "k \<in> set ?ns")
      case True
      with r0 zs_iff have "k \<in> set zs" by simp
      then show ?thesis unfolding q' by simp
    next
      case False
      then have "count_list ?ns k = 0" by (simp add: count_list_0_iff)
      with r0 rs [of k] have "remaining es order k = 0" by simp
      with Z [OF kV] show ?thesis unfolding q' by auto
    qed
  qed
  have T': "fst e \<in> set ?order \<and> index_of ?order (fst e) < index_of ?order (snd e)"
    if e: "e \<in> set es" and se: "snd e \<in> set ?order" for e
  proof (cases "snd e \<in> set order")
    case True
    from T [OF e True] True show ?thesis by (simp add: index_of_append)
  next
    case False
    with se have si: "snd e = i" by simp
    from Z [OF iV] have "remaining es order i = 0" by simp
    with e si have fo: "fst e \<in> set order" by (auto simp: remaining_0_iff)
    with index_of_less [OF fo] io si show ?thesis by (simp add: index_of_append)
  qed
  show ?thesis
    unfolding kahn_inv_def
    using D' S' G' Z' T' by (intro conjI ballI impI) blast+
qed

lemma drain_inv:
  assumes "kahn_inv V es indeg q order"
    and "\<forall>e\<in>set es. fst e \<in> set V \<and> snd e \<in> set V"
    and "\<forall>k\<in>set V. out k = Some (succs es k)"
  shows "\<exists>order' indeg'. drain indeg out q order = Inr order' \<and> kahn_inv V es indeg' [] order'"
  using assms
proof (induction indeg out q order rule: drain.induct)
  case (1 indeg out order)
  then show ?case by auto
next
  case (2 indeg out i q order)
  from "2.prems"(1) have "i \<in> set V" by (simp add: kahn_inv_def)
  with "2.prems"(3) have o: "out i = Some (succs es i)" by simp
  obtain indeg' q' where r: "relax (succs es i) (indeg, q) = (indeg', q')" by force
  from kahn_step [OF "2.prems"(1,2) r] have "kahn_inv V es indeg' q' (order @ [i])" .
  from "2.IH" [OF o r [symmetric] this "2.prems"(2,3)] o r show ?case by simp
qed

lemma init_tables_distinct:
  assumes "distinct (map nid ns)" and "nid ` set ns \<inter> fst ` set indeg = {}"
  shows "init_tables ns (indeg, out)
    = (indeg @ map (\<lambda>n. (nid n, 0)) ns, (\<lambda>k. if k \<in> nid ` set ns then Some [] else out k))"
  using assms
proof (induction ns arbitrary: indeg out)
  case Nil
  show ?case by simp
next
  case (Cons n ns)
  from Cons.prems have new: "nid n \<notin> fst ` set indeg" by auto
  have d: "distinct (map nid ns)" using Cons.prems by simp
  have i: "nid ` set ns \<inter> fst ` set (indeg @ [(nid n, 0)]) = {}"
    using Cons.prems by auto
  have "init_tables (n # ns) (indeg, out)
      = init_tables ns (indeg @ [(nid n, 0)], out(nid n \<mapsto> []))"
    by (simp add: js_set_new [OF new])
  also have "\<dots> = ((indeg @ [(nid n, 0)]) @ map (\<lambda>n. (nid n, 0)) ns,
      (\<lambda>k. if k \<in> nid ` set ns then Some [] else (out(nid n \<mapsto> [])) k))"
    by (rule Cons.IH [OF d i])
  also have "\<dots> = (indeg @ map (\<lambda>n. (nid n, 0)) (n # ns),
      (\<lambda>k. if k \<in> nid ` set (n # ns) then Some [] else out k))"
    by (auto simp: fun_eq_iff)
  finally show ?case .
qed

lemma count_edges_ok:
  assumes "\<forall>e\<in>set es. fst e \<in> dom out \<and> snd e \<in> fst ` set indeg"
  shows "\<exists>indeg' out'. count_edges es (indeg, out) = Inr (indeg', out')
      \<and> map fst indeg' = map fst indeg
      \<and> (\<forall>k. js_get indeg' k
             = map_option (\<lambda>d. d + int (length (filter (\<lambda>e. snd e = k) es))) (js_get indeg k))
      \<and> (\<forall>k. out' k = map_option (\<lambda>l. l @ succs es k) (out k))"
  using assms
proof (induction es arbitrary: indeg out)
  case Nil
  show ?case by (simp add: succs_def option.map_ident)
next
  case (Cons e es)
  obtain f t where e: "e = (f, t)" by (cases e)
  from Cons.prems e obtain l where l: "out f = Some l" by auto
  from Cons.prems e have "t \<in> fst ` set indeg" by simp
  then have tk: "js_get indeg t \<noteq> None" using js_get_key [of indeg t] by blast
  then obtain d where d: "js_get indeg t = Some d" by auto
  let ?indeg = "js_set indeg t (d + 1)"
  let ?out = "out(f \<mapsto> l @ [t])"
  have keys: "map fst ?indeg = map fst indeg"
    using \<open>t \<in> fst ` set indeg\<close> by (rule map_fst_js_set)
  have pre: "\<forall>e\<in>set es. fst e \<in> dom ?out \<and> snd e \<in> fst ` set ?indeg"
  proof
    fix x assume "x \<in> set es"
    with Cons.prems have "fst x \<in> dom out" "snd x \<in> set (map fst indeg)" by auto
    then show "fst x \<in> dom ?out \<and> snd x \<in> fst ` set ?indeg"
      using keys by (metis domIff fun_upd_apply option.simps(3) set_map)
  qed
  from Cons.IH [OF pre] obtain indeg' out' where r: "count_edges es (?indeg, ?out) = Inr (indeg', out')"
    "map fst indeg' = map fst ?indeg"
    "\<forall>k. js_get indeg' k
       = map_option (\<lambda>d. d + int (length (filter (\<lambda>e. snd e = k) es))) (js_get ?indeg k)"
    "\<forall>k. out' k = map_option (\<lambda>l. l @ succs es k) (?out k)"
    by (elim exE conjE) (rule that)
  have step: "count_edges (e # es) (indeg, out) = count_edges es (?indeg, ?out)"
    using e l d by simp
  have g: "js_get indeg' k
      = map_option (\<lambda>d. d + int (length (filter (\<lambda>e. snd e = k) (e # es)))) (js_get indeg k)" for k
    using r(3) [rule_format, of k] d e by (cases "k = t") (simp_all add: js_get_js_set option.map_comp comp_def)
  have o: "out' k = map_option (\<lambda>l. l @ succs (e # es) k) (out k)" for k
    using r(4) [rule_format, of k] l e by (cases "k = f") (simp_all add: succs_def)
  have c: "count_edges (e # es) (indeg, out) = Inr (indeg', out')"
    using step r(1) by simp
  have k: "map fst indeg' = map fst indeg" using r(2) keys by simp
  from c k g o show ?case by blast
qed

lemma loaded_edges_wf:
  assumes "loaded s"
  shows "\<forall>e\<in>set (edges s). fst e \<in> set (node_ids s) \<and> snd e \<in> set (node_ids s)"
proof
  fix e assume e: "e \<in> set (edges s)"
  note lf = loaded_facts [OF assms]
  from e lf(5) have "resolved (byId s) e" by (simp add: list_all_iff)
  then have "find (\<lambda>n. nid n = fst e) (nodes_of s) \<noteq> None"
    using lf(1) by (simp add: resolved_def index_nodes_def)
  then obtain n where "n \<in> set (nodes_of s)" "nid n = fst e"
    by (auto simp: find_None_iff)
  then have "fst e \<in> set (node_ids s)"
    unfolding node_ids_def by (metis image_eqI set_map)
  moreover from e lf(4) have "snd e \<in> set (node_ids s)"
    by (auto simp: all_refs_def node_ids_def)
  ultimately show "fst e \<in> set (node_ids s) \<and> snd e \<in> set (node_ids s)" ..
qed

lemma loaded_distinct_ids: "loaded s \<Longrightarrow> distinct (node_ids s)"
  by (simp add: loaded_facts(3) node_ids_def)

lemma topoSort_loaded:
  assumes "loaded s"
  shows "\<exists>order indeg. topoSort s
        = Inr (if length order \<noteq> length (nodes_of s) then (False, []) else (True, order))
      \<and> kahn_inv (node_ids s) (edges s) indeg [] order"
proof -
  let ?V = "node_ids s" and ?es = "edges s"
  note wf = loaded_edges_wf [OF assms]
  note dV = loaded_distinct_ids [OF assms]
  let ?indeg0 = "map (\<lambda>n. (nid n, 0::int)) (nodes_of s)"
  let ?out0 = "\<lambda>k. if k \<in> nid ` set (nodes_of s) then Some ([]::js_id list) else None"
  have it: "init_tables (nodes_of s) ([], Map.empty) = (?indeg0, ?out0)"
    using init_tables_distinct [of "nodes_of s" "[]" Map.empty] dV
    by (simp add: node_ids_def)
  have k0: "map fst ?indeg0 = ?V" by (simp add: node_ids_def comp_def)
  have g0: "js_get ?indeg0 k = Some 0" if "k \<in> set ?V" for k
  proof -
    from that have "k \<in> fst ` set ?indeg0" by (simp add: node_ids_def image_image)
    then have "js_get ?indeg0 k \<noteq> None" using js_get_key [of ?indeg0 k] by blast
    then obtain v where v: "map_of ?indeg0 k = Some v" by (auto simp: js_get_def)
    from map_of_SomeD [OF v] have "v = 0" by auto
    with v show ?thesis by (simp add: js_get_def)
  qed
  have pre: "\<forall>e\<in>set ?es. fst e \<in> dom ?out0 \<and> snd e \<in> fst ` set ?indeg0"
    using wf by (auto simp: node_ids_def image_image dom_def)
  from count_edges_ok [OF pre] obtain indeg out where c: "count_edges ?es (?indeg0, ?out0) = Inr (indeg, out)"
    and keys: "map fst indeg = map fst ?indeg0"
    and g: "\<forall>k. js_get indeg k
       = map_option (\<lambda>d. d + int (length (filter (\<lambda>e. snd e = k) ?es))) (js_get ?indeg0 k)"
    and o: "\<forall>k. out k = map_option (\<lambda>l. l @ succs ?es k) (?out0 k)"
    by (elim exE conjE) (rule that)
  note keys = keys [unfolded k0] and g = g [rule_format] and o = o [rule_format]
  have G: "js_get indeg k = Some (remaining ?es [] k)" if "k \<in> set ?V" for k
    using g [of k] g0 [OF that] by (simp add: remaining_def)
  have O: "\<forall>k\<in>set ?V. out k = Some (succs ?es k)"
    using o by (simp add: node_ids_def)
  have dk: "distinct (map fst indeg)" using keys dV by simp
  have ds: "distinct (seeds indeg)"
    unfolding seeds_def using dk by (rule distinct_map_filter)
  have ss: "k \<in> set (seeds indeg) \<longleftrightarrow> js_get indeg k = Some 0" for k
    using dk by (auto simp: seeds_def js_get_def image_iff)
  have sV: "set (seeds indeg) \<subseteq> set ?V"
    using keys by (auto simp: seeds_def) (metis fst_conv image_eqI set_map)
  have inv0: "kahn_inv ?V ?es indeg (seeds indeg) []"
    unfolding kahn_inv_def using ds sV G ss by auto
  from drain_inv [OF inv0 wf O] obtain order indeg' where d: "drain indeg out (seeds indeg) [] = Inr order"
    and inv: "kahn_inv ?V ?es indeg' [] order"
    by (elim exE conjE) (rule that)
  have "topoSort s = Inr (if length order \<noteq> length (nodes_of s) then (False, []) else (True, order))"
    by (simp add: topoSort_def it c d)
  with inv show ?thesis by blast
qed

lemma topo_final:
  assumes inv: "kahn_inv V es indeg [] order" and dV: "distinct V"
    and wf: "\<forall>e\<in>set es. fst e \<in> set V \<and> snd e \<in> set V"
  shows "acyclic (set es) \<longleftrightarrow> length order = length V"
proof
  from inv have D: "distinct order" and S: "set order \<subseteq> set V"
    and Z: "\<And>k. k \<in> set V \<Longrightarrow> k \<in> set order \<longleftrightarrow> remaining es order k = 0"
    and T: "\<And>e. e \<in> set es \<Longrightarrow> snd e \<in> set order \<Longrightarrow>
          fst e \<in> set order \<and> index_of order (fst e) < index_of order (snd e)"
    by (simp_all add: kahn_inv_def)
  {
    assume ac: "acyclic (set es)"
    have "set V - set order = {}"
    proof (rule ccontr)
      assume "set V - set order \<noteq> {}"
      then obtain x where x: "x \<in> set V - set order" by auto
      have "wf (set es)" using ac by (simp add: finite_acyclic_wf)
      with x obtain z where z: "z \<in> set V - set order"
        and zmin: "\<And>y. (y, z) \<in> set es \<Longrightarrow> y \<notin> set V - set order"
        unfolding wf_eq_minimal by blast
      from z Z [of z] have "remaining es order z \<noteq> 0" by simp
      then obtain e where e: "e \<in> set es" "snd e = z" "fst e \<notin> set order"
        by (auto simp: remaining_0_iff)
      with wf have "fst e \<in> set V - set order" by simp
      moreover from e have "(fst e, z) \<in> set es" by (metis prod.collapse)
      ultimately show False using zmin by blast
    qed
    with S have "set order = set V" by auto
    then show "length order = length V"
      using D dV by (metis distinct_card)
  }
  {
    assume len: "length order = length V"
    have "card (set order) = card (set V)"
      using len D dV by (simp add: distinct_card)
    with S have sv: "set order = set V" by (simp add: card_subset_eq)
    have "acyclic ((set es)\<inverse>)"
    proof (rule acyclicI_order [where f = "index_of order"])
      fix a b assume "(a, b) \<in> (set es)\<inverse>"
      then have e: "(b, a) \<in> set es" by simp
      with wf sv have "snd (b, a) \<in> set order" by auto
      from T [OF e this] show "index_of order b < index_of order a" by simp
    qed
    then show "acyclic (set es)" by simp
  }
qed

lemma topoSort_acyclic_order:
  assumes "loaded s" and "acyclic (set (edges s))"
  shows "\<exists>order. topoSort s = Inr (True, order)
    \<and> distinct order \<and> set order = set (node_ids s) \<and> length order = length (nodes_of s)
    \<and> (\<forall>e\<in>set (edges s). fst e \<in> set order \<and> snd e \<in> set order
          \<and> index_of order (fst e) < index_of order (snd e))"
proof -
  from topoSort_loaded [OF assms(1)] obtain order indeg where
    t: "topoSort s = Inr (if length order \<noteq> length (nodes_of s) then (False, []) else (True, order))"
    and inv: "kahn_inv (node_ids s) (edges s) indeg [] order"
    by (elim exE conjE) (rule that)
  note wf = loaded_edges_wf [OF assms(1)]
  note dV = loaded_distinct_ids [OF assms(1)]
  from topo_final [OF inv dV wf] assms(2) have len: "length order = length (node_ids s)" by simp
  then have len': "length order = length (nodes_of s)" by (simp add: node_ids_def)
  from inv have D: "distinct order" and S: "set order \<subseteq> set (node_ids s)"
    and T: "\<And>e. e \<in> set (edges s) \<Longrightarrow> snd e \<in> set order \<Longrightarrow>
          index_of order (fst e) < index_of order (snd e)"
    by (simp_all add: kahn_inv_def)
  have "card (set order) = card (set (node_ids s))"
    using len D dV by (simp add: distinct_card)
  with S have sv: "set order = set (node_ids s)" by (simp add: card_subset_eq)
  have "\<forall>e\<in>set (edges s). fst e \<in> set order \<and> snd e \<in> set order
      \<and> index_of order (fst e) < index_of order (snd e)"
    using T wf sv by simp
  with t len' D sv show ?thesis by simp
qed

lemma topoSort_cyclic_fails:
  assumes "loaded s" and "\<not> acyclic (set (edges s))"
  shows "topoSort s = Inr (False, [])"
proof -
  from topoSort_loaded [OF assms(1)] obtain order indeg where
    t: "topoSort s = Inr (if length order \<noteq> length (nodes_of s) then (False, []) else (True, order))"
    and inv: "kahn_inv (node_ids s) (edges s) indeg [] order"
    by (elim exE conjE) (rule that)
  from topo_final [OF inv loaded_distinct_ids [OF assms(1)] loaded_edges_wf [OF assms(1)]] assms(2)
  have "length order \<noteq> length (nodes_of s)" by (simp add: node_ids_def)
  with t show ?thesis by simp
qed

section \<open>Loads that succeed\<close>

lemma ex_cyclic_eq:
  "ex_cyclic = ex_init\<lparr>data := ex_cycle,
     byId := [Some ''a'' \<mapsto> Node (Some ''a'') [Dep (Some ''b'')],
              Some ''b'' \<mapsto> Node (Some ''b'') [Dep (Some ''a'')]],
     edges := [(Some ''b'', Some ''a''), (Some ''a'', Some ''b'')]\<rparr>"
  by (simp add: ex_cyclic_def ex_cycle_def ex_simps)

lemma ex_cyclic_loaded: "loaded ex_cyclic"
  unfolding ex_cyclic_def
  by (rule setData_loaded [where wk = "Some ex_cycle" and s = ex_init])
     (simp add: ex_cycle_def ex_simps)

lemma scan_ids_wellformed:
  assumes "list_all good_id ns" and "distinct (map nid ns)"
  shows "scan_ids ns Map.empty = (None, index_nodes ns)"
proof -
  obtain r m where rm: "scan_ids ns Map.empty = (r, m)" by force
  from scan_ids_prefix [OF rm] obtain j where j: "j \<le> length ns" "r = None \<longleftrightarrow> j = length ns"
    "m = Map.empty ++ index_nodes (take j ns)"
    "j < length ns \<longrightarrow> \<not> good_id (ns ! j) \<or> m (nid (ns ! j)) \<noteq> None"
    by (elim exE conjE) (rule that)
  have "j = length ns"
  proof (rule ccontr)
    assume "j \<noteq> length ns"
    with j(1) have lt: "j < length ns" by simp
    with assms(1) have "good_id (ns ! j)" by (simp add: list_all_length)
    with j(3,4) lt have "find (\<lambda>n. nid n = nid (ns ! j)) (take j ns) \<noteq> None"
      by (simp add: index_nodes_def)
    then obtain n where "n \<in> set (take j ns)" "nid n = nid (ns ! j)"
      by (auto simp: find_None_iff)
    then obtain i where "i < j" "nid (ns ! i) = nid (ns ! j)"
      using lt by (auto simp: in_set_conv_nth)
    with lt assms(2) show False
      by (simp add: distinct_conv_nth)
  qed
  with j rm show ?thesis by simp
qed

lemma build_edges_wellformed:
  assumes "list_all (resolved m) (all_refs ns)"
  shows "build_edges ns m [] = (None, all_refs ns)"
proof -
  obtain r es where res: "build_edges ns m [] = (r, es)" by force
  from build_edges_prefix [OF res] obtain j where j: "j \<le> length (all_refs ns)"
    "r = None \<longleftrightarrow> j = length (all_refs ns)" "es = [] @ take j (all_refs ns)"
    "j < length (all_refs ns) \<longrightarrow> \<not> resolved m (all_refs ns ! j)"
    by (elim exE conjE) (rule that)
  have "j = length (all_refs ns)"
  proof (rule ccontr)
    assume "j \<noteq> length (all_refs ns)"
    with j(1) have lt: "j < length (all_refs ns)" by simp
    with assms have "resolved m (all_refs ns ! j)" by (simp add: list_all_length)
    with j(4) lt show False by simp
  qed
  with j res show ?thesis by simp
qed

lemma setData_wellformed:
  assumes good: "list_all good_id ns" and dist: "distinct (map nid ns)"
    and deps: "\<forall>n\<in>set ns. \<forall>dep\<in>set (depends_on n). node_id dep \<in> nid ` set ns"
  shows "setData (Some (Workflow (Some ns))) s
    = (None, s\<lparr>data := Workflow (Some ns), byId := index_nodes ns, edges := all_refs ns\<rparr>)"
proof -
  have res: "resolved (index_nodes ns) e" if "e \<in> set (all_refs ns)" for e
  proof -
    from that deps obtain n where n: "n \<in> set ns" "nid n = fst e"
      by (auto simp: all_refs_def) (metis imageE)
    with good have g: "good_id n" by (simp add: list_all_iff)
    then obtain i where i: "nid n = Some i" "\<not> blank i"
      by (auto simp: good_id_def split: option.splits)
    then have "i \<noteq> []" by (auto simp: blank_def)
    moreover from n have "find (\<lambda>x. nid x = fst e) ns \<noteq> None"
      by (auto simp: find_None_iff)
    moreover from n i have "fst e = Some i" by simp
    ultimately show ?thesis by (simp add: resolved_def index_nodes_def)
  qed
  then have "list_all (resolved (index_nodes ns)) (all_refs ns)" by (simp add: list_all_iff)
  from build_edges_wellformed [OF this] scan_ids_wellformed [OF good dist]
  show ?thesis by (simp add: setData_def validateAndBuildGraph_def nodes_of_def)
qed

section \<open>Correctness of \<open>_computeDepths\<close>\<close>

lemma zero_depths_eq:
  "zero_depths order depth = (\<lambda>k. if k \<in> set order then Some 0 else depth k)"
  by (induction order arbitrary: depth) (auto simp: fun_eq_iff)

lemma max_dep_cong:
  "\<forall>dep\<in>set deps. depth (node_id dep) = depth' (node_id dep)
     \<Longrightarrow> max_dep depth deps d = max_dep depth' deps d"
  by (induction deps arbitrary: d) (simp_all add: depth_or_0_def)

lemma max_dep_Max:
  "max_dep depth deps d = Max (insert d ((\<lambda>dep. depth_or_0 depth (node_id dep) + 1) ` set deps))"
proof (induction deps arbitrary: d)
  case Nil
  show ?case by simp
next
  case (Cons dep deps)
  show ?case
    using Cons.IH [of "max d (depth_or_0 depth (node_id dep) + 1)"]
    by (cases "deps = []") (simp_all add: max.assoc)
qed

lemma max_dep_0:
  "max_dep depth deps 0
     = (if deps = [] then 0 else 1 + Max ((\<lambda>dep. depth_or_0 depth (node_id dep)) ` set deps))"
proof (cases "deps = []")
  case True
  then show ?thesis by simp
next
  case False
  let ?g = "\<lambda>dep. depth_or_0 depth (node_id dep)"
  have ne: "?g ` set deps \<noteq> {}" "finite (?g ` set deps)" using False by simp_all
  have "(\<lambda>dep. ?g dep + 1) ` set deps = (\<lambda>x. x + 1) ` (?g ` set deps)"
    by (simp add: image_image)
  moreover have "Max ((\<lambda>x. x + 1) ` (?g ` set deps)) = Max (?g ` set deps) + 1"
    by (rule mono_Max_commute [OF _ ne(2) ne(1), symmetric]) (simp add: mono_def)
  ultimately show ?thesis using False ne by (simp add: max_dep_Max)
qed

lemma depth_pass_ok:
  assumes "distinct todo" and "deps_before m todo"
  shows "\<exists>depth'. depth_pass m todo depth = Inr depth'
      \<and> (\<forall>k. k \<notin> set todo \<longrightarrow> depth' k = depth k)
      \<and> (\<forall>k\<in>set todo. \<forall>node. m k = Some node \<longrightarrow>
            depth' k = Some (max_dep depth' (depends_on node) 0))"
  using assms
proof (induction todo arbitrary: depth)
  case Nil
  show ?case by simp
next
  case (Cons k rest)
  from Cons.prems(2) obtain node where node: "m k = Some node"
    and before: "\<forall>dep\<in>set (depends_on node). node_id dep \<notin> set (k # rest)"
    and rest: "deps_before m rest" by auto
  from Cons.prems(1) have d: "distinct rest" and kr: "k \<notin> set rest" by simp_all
  let ?depth = "depth(k \<mapsto> max_dep depth (depends_on node) 0)"
  from Cons.IH [OF d rest, of ?depth] obtain depth' where r: "depth_pass m rest ?depth = Inr depth'"
    and same: "\<forall>j. j \<notin> set rest \<longrightarrow> depth' j = ?depth j"
    and fin: "\<forall>j\<in>set rest. \<forall>node. m j = Some node \<longrightarrow>
            depth' j = Some (max_dep depth' (depends_on node) 0)"
    by (elim exE conjE) (rule that)
  have step: "depth_pass m (k # rest) depth = Inr depth'" using node r by simp
  have unchanged: "\<forall>j. j \<notin> set (k # rest) \<longrightarrow> depth' j = depth j"
    using same by simp
  have "\<forall>dep\<in>set (depends_on node). depth (node_id dep) = depth' (node_id dep)"
    using before unchanged by simp
  from max_dep_cong [OF this] have "max_dep depth (depends_on node) 0 = max_dep depth' (depends_on node) 0" .
  moreover from same kr have "depth' k = Some (max_dep depth (depends_on node) 0)" by simp
  ultimately have "depth' k = Some (max_dep depth' (depends_on node) 0)" by simp
  with fin node have "\<forall>j\<in>set (k # rest). \<forall>node. m j = Some node \<longrightarrow>
            depth' j = Some (max_dep depth' (depends_on node) 0)" by simp
  with step unchanged show ?case by blast
qed

lemma deps_beforeI:
  assumes "distinct (pre @ todo)"
    and "\<forall>k\<in>set todo. \<exists>node. m k = Some node \<and> (\<forall>dep\<in>set (depends_on node).
           index_of (pre @ todo) (node_id dep) < index_of (pre @ todo) k)"
  shows "deps_before m todo"
  using assms
proof (induction todo arbitrary: pre)
  case Nil
  show ?case by simp
next
  case (Cons k rest)
  from Cons.prems(1) have kp: "k \<notin> set pre" and d: "distinct pre" "distinct (k # rest)"
    and disj: "set pre \<inter> set (k # rest) = {}" by auto
  from Cons.prems(2) obtain node where node: "m k = Some node"
    and lt: "\<forall>dep\<in>set (depends_on node).
           index_of (pre @ k # rest) (node_id dep) < index_of (pre @ k # rest) k" by auto
  have ik: "index_of (pre @ k # rest) k = length pre" using kp by (simp add: index_of_append)
  have "node_id dep \<notin> set (k # rest)" if "dep \<in> set (depends_on node)" for dep
  proof -
    from lt that ik have "index_of (pre @ k # rest) (node_id dep) < length pre" by simp
    then have "node_id dep \<in> set pre" by (simp add: index_of_append split: if_splits)
    with disj show ?thesis by auto
  qed
  moreover have "deps_before m rest"
  proof (rule Cons.IH [of "pre @ [k]"])
    show "distinct ((pre @ [k]) @ rest)" using Cons.prems(1) by simp
    show "\<forall>j\<in>set rest. \<exists>node. m j = Some node \<and> (\<forall>dep\<in>set (depends_on node).
           index_of ((pre @ [k]) @ rest) (node_id dep) < index_of ((pre @ [k]) @ rest) j)"
      using Cons.prems(2) by simp
  qed
  ultimately show ?case using node by simp
qed

lemma index_nodes_Some:
  "index_nodes ns k = Some n \<Longrightarrow> n \<in> set ns \<and> nid n = k"
  by (auto simp: index_nodes_def find_Some_iff)

lemma index_nodes_distinct:
  "distinct (map nid ns) \<Longrightarrow> n \<in> set ns \<Longrightarrow> index_nodes ns (nid n) = Some n"
  unfolding index_nodes_def by (induction ns) (auto simp: image_iff)

lemma loaded_dep_edge:
  assumes "loaded s" and "n \<in> set (nodes_of s)" and "dep \<in> set (depends_on n)"
  shows "(node_id dep, nid n) \<in> set (edges s)"
  using assms(2,3) unfolding loaded_facts(4) [OF assms(1)] all_refs_def by force

lemma loaded_edge_dep:
  assumes "loaded s" and "e \<in> set (edges s)"
  obtains n dep where "n \<in> set (nodes_of s)" "dep \<in> set (depends_on n)"
    "fst e = node_id dep" "snd e = nid n"
  using assms(2) unfolding loaded_facts(4) [OF assms(1)] all_refs_def by auto

lemma computeDepths_topological:
  assumes "loaded s" and "distinct order" and "set order = set (node_ids s)"
    and "\<forall>e\<in>set (edges s). index_of order (fst e) < index_of order (snd e)"
  shows "\<exists>depth. computeDepths s order = Inr depth
    \<and> (\<forall>n\<in>set (nodes_of s). depth (nid n)
          = Some (if depends_on n = [] then 0
                  else 1 + Max ((\<lambda>dep. depth_or_0 depth (node_id dep)) ` set (depends_on n))))
    \<and> (\<forall>e\<in>set (edges s). depth_or_0 depth (fst e) < depth_or_0 depth (snd e))"
proof -
  note lf = loaded_facts [OF assms(1)]
  let ?ns = "nodes_of s"
  have byid: "byId s (nid n) = Some n" if "n \<in> set ?ns" for n
    using index_nodes_distinct [OF lf(3) that] lf(1) by simp
  have "\<forall>k\<in>set order. \<exists>node. byId s k = Some node \<and> (\<forall>dep\<in>set (depends_on node).
           index_of ([] @ order) (node_id dep) < index_of ([] @ order) k)"
  proof
    fix k assume "k \<in> set order"
    with assms(3) obtain n where n: "n \<in> set ?ns" "nid n = k"
      by (auto simp: node_ids_def)
    have "index_of order (node_id dep) < index_of order k" if "dep \<in> set (depends_on n)" for dep
      using loaded_dep_edge [OF assms(1) n(1) that] assms(4) n(2) by auto
    with byid [OF n(1)] n(2)
    show "\<exists>node. byId s k = Some node \<and> (\<forall>dep\<in>set (depends_on node).
           index_of ([] @ order) (node_id dep) < index_of ([] @ order) k)" by auto
  qed
  with assms(2) have "deps_before (byId s) order" by (intro deps_beforeI [of "[]"]) simp_all
  from depth_pass_ok [OF assms(2) this, of "zero_depths order Map.empty"]
  obtain depth where c0: "depth_pass (byId s) order (zero_depths order Map.empty) = Inr depth"
    and fin: "\<forall>k\<in>set order. \<forall>node. byId s k = Some node \<longrightarrow>
            depth k = Some (max_dep depth (depends_on node) 0)"
    by (elim exE conjE) (rule that)
  from c0 have c: "computeDepths s order = Inr depth" by (simp add: computeDepths_def)
  have val: "depth (nid n) = Some (if depends_on n = [] then 0
      else 1 + Max ((\<lambda>dep. depth_or_0 depth (node_id dep)) ` set (depends_on n)))"
    if "n \<in> set ?ns" for n
  proof -
    from that assms(3) have "nid n \<in> set order" by (simp add: node_ids_def)
    with fin byid [OF that] show ?thesis by (simp add: max_dep_0)
  qed
  have mono: "depth_or_0 depth (fst e) < depth_or_0 depth (snd e)" if "e \<in> set (edges s)" for e
  proof -
    from loaded_edge_dep [OF assms(1) that] obtain n dep where n: "n \<in> set ?ns"
      "dep \<in> set (depends_on n)" "fst e = node_id dep" "snd e = nid n" by blast
    let ?g = "\<lambda>dep. depth_or_0 depth (node_id dep)"
    from n(2) have "?g dep \<le> Max (?g ` set (depends_on n))" by simp
    moreover from n(2) have "depends_on n \<noteq> []" by auto
    ultimately show ?thesis using val [OF n(1)] n(3,4) by (simp add: depth_or_0_def)
  qed
  from c val mono show ?thesis by blast
qed

section \<open>Properties of \<open>relayout\<close>\<close>

lemma log_fields [simp]:
  "positions (log msg s) = positions s" "dragged (log msg s) = dragged s"
  "data (log msg s) = data s" "byId (log msg s) = byId s" "edges (log msg s) = edges s"
  "nodes_of (log msg s) = nodes_of s"
  by (simp_all add: log_def nodes_of_def split: option.splits)

lemma topoSort_cong:
  "nodes_of s' = nodes_of s \<Longrightarrow> edges s' = edges s \<Longrightarrow> topoSort s' = topoSort s"
  by (simp add: topoSort_def)

lemma computeDepths_cong:
  "byId s' = byId s \<Longrightarrow> computeDepths s' order = computeDepths s order"
  by (simp add: computeDepths_def)

lemma place_ids_add:
  "place_ids skip xy i ids ps = ps ++ place_ids skip xy i ids Map.empty"
proof (induction ids arbitrary: i ps)
  case Nil
  show ?case by simp
next
  case (Cons k ids)
  show ?case
  proof (cases "skip k")
    case True
    with Cons.IH [of "Suc i" ps] show ?thesis by simp
  next
    case False
    have step: "place_ids skip xy i (k # ids) qs = place_ids skip xy (Suc i) ids (qs(k \<mapsto> xy i))" for qs
      using False by simp
    have "place_ids skip xy i (k # ids) ps = ps(k \<mapsto> xy i) ++ place_ids skip xy (Suc i) ids Map.empty"
      unfolding step by (rule Cons.IH)
    moreover have "place_ids skip xy i (k # ids) Map.empty
        = [k \<mapsto> xy i] ++ place_ids skip xy (Suc i) ids Map.empty"
      unfolding step by (rule Cons.IH)
    moreover have "ps(k \<mapsto> xy i) = ps ++ [k \<mapsto> xy i]" by simp
    ultimately show ?thesis by (simp only: map_add_assoc)
  qed
qed

lemma place_layers_add:
  "place_layers s r w layers ds ps = ps ++ place_layers s r w layers ds Map.empty"
proof (induction ds arbitrary: ps)
  case Nil
  show ?case by simp
next
  case (Cons d ds)
  let ?ids = "case layers d of None \<Rightarrow> [] | Some l \<Rightarrow> l"
  show ?case
  proof (cases "length ?ids = 0")
    case True
    with Cons.IH [of ps] show ?thesis by (simp add: Let_def)
  next
    case False
    let ?pl = "\<lambda>ps. place_ids (\<lambda>k. \<not> r \<and> k \<in> dragged s) (layer_pos s w d (length ?ids)) 0 ?ids ps"
    have step: "place_layers s r w layers (d # ds) qs = place_layers s r w layers ds (?pl qs)" for qs
      using False by (simp add: Let_def)
    have "place_layers s r w layers (d # ds) ps = ?pl ps ++ place_layers s r w layers ds Map.empty"
      unfolding step by (rule Cons.IH)
    moreover have "place_layers s r w layers (d # ds) Map.empty
        = ?pl Map.empty ++ place_layers s r w layers ds Map.empty"
      unfolding step by (rule Cons.IH)
    moreover have "?pl ps = ps ++ ?pl Map.empty" by (rule place_ids_add)
    ultimately show ?thesis by (simp only: map_add_assoc)
  qed
qed

lemma layer_pos_cong:
  "NODE_W s' = NODE_W s \<Longrightarrow> NODE_H s' = NODE_H s \<Longrightarrow> GAP_X s' = GAP_X s \<Longrightarrow> GAP_Y s' = GAP_Y s
     \<Longrightarrow> fl s' = fl s \<Longrightarrow> layer_pos s' = layer_pos s"
  by (simp add: layer_pos_def fun_eq_iff js_add_def js_sub_def js_mul_def js_div_def)

lemma place_layers_cong:
  assumes "layer_pos s' = layer_pos s" and "dragged s' = dragged s"
  shows "place_layers s' r w layers ds ps = place_layers s r w layers ds ps"
  by (induction ds arbitrary: ps) (simp_all add: assms Let_def)

lemma pack_missing_other:
  "k \<notin> set ks \<Longrightarrow> pack_missing s w x ks ps k = ps k"
  by (induction ks arbitrary: x ps) (simp_all add: Let_def)

lemma pack_missing_dom:
  "k \<in> set ks \<Longrightarrow> pack_missing s w x ks ps k \<noteq> None"
proof (induction ks arbitrary: x ps)
  case Nil
  then show ?case by simp
next
  case (Cons a ks)
  show ?case
  proof (cases "k \<in> set ks")
    case True
    from Cons.IH [OF True] show ?thesis by (simp add: Let_def)
  next
    case False
    with Cons.prems have "k = a" by simp
    with False show ?thesis by (simp add: Let_def pack_missing_other)
  qed
qed

lemma pack_missing_nth:
  "distinct ks \<Longrightarrow> j < length ks
     \<Longrightarrow> pack_missing s w x ks ps (ks ! j) = Some (fallback_x s w x j, 40)"
proof (induction ks arbitrary: x ps j)
  case Nil
  then show ?case by simp
next
  case (Cons a ks)
  show ?case
  proof (cases j)
    case 0
    with Cons.prems show ?thesis by (simp add: Let_def pack_missing_other)
  next
    case (Suc i)
    with Cons.prems Cons.IH [of i] show ?thesis by (simp add: Let_def)
  qed
qed

lemma ensure_fields [simp]:
  "dragged (ensurePositionsForMissing w s) = dragged s"
  "data (ensurePositionsForMissing w s) = data s"
  "byId (ensurePositionsForMissing w s) = byId s"
  "edges (ensurePositionsForMissing w s) = edges s"
  "nodes_of (ensurePositionsForMissing w s) = nodes_of s"
  "NODE_W (ensurePositionsForMissing w s) = NODE_W s"
  "NODE_H (ensurePositionsForMissing w s) = NODE_H s"
  "GAP_X (ensurePositionsForMissing w s) = GAP_X s"
  "GAP_Y (ensurePositionsForMissing w s) = GAP_Y s"
  "fl (ensurePositionsForMissing w s) = fl s"
  by (simp_all add: ensurePositionsForMissing_def nodes_of_def Let_def)

lemma ensure_keeps:
  "positions s k \<noteq> None \<Longrightarrow> positions (ensurePositionsForMissing w s) k = positions s k"
proof -
  assume "positions s k \<noteq> None"
  then have "k \<notin> set (missing_ids s)" by (auto simp: missing_ids_def)
  then show ?thesis
    by (simp add: ensurePositionsForMissing_def Let_def pack_missing_other)
qed

lemma ensure_covers:
  assumes "n \<in> set (nodes_of s)"
  shows "positions (ensurePositionsForMissing w s) (nid n) \<noteq> None"
proof (cases "positions s (nid n)")
  case None
  with assms have m: "nid n \<in> set (missing_ids s)" by (auto simp: missing_ids_def)
  then have "missing_ids s \<noteq> []" by auto
  with pack_missing_dom [OF m] show ?thesis
    by (simp add: ensurePositionsForMissing_def Let_def)
next
  case (Some p)
  with ensure_keeps [of s "nid n" w] show ?thesis by simp
qed

lemma ensure_idle:
  assumes "\<forall>n\<in>set (nodes_of s). positions s (nid n) \<noteq> None"
  shows "ensurePositionsForMissing w s = s"
proof -
  from assms have "missing_ids s = []" by (simp add: missing_ids_def filter_empty_conv)
  then show ?thesis by (simp add: ensurePositionsForMissing_def)
qed

lemma layered_fields [simp]:
  "dragged (layered r w order depth s) = dragged s"
  "data (layered r w order depth s) = data s"
  "byId (layered r w order depth s) = byId s"
  "edges (layered r w order depth s) = edges s"
  "nodes_of (layered r w order depth s) = nodes_of s"
  "NODE_W (layered r w order depth s) = NODE_W s"
  "NODE_H (layered r w order depth s) = NODE_H s"
  "GAP_X (layered r w order depth s) = GAP_X s"
  "GAP_Y (layered r w order depth s) = GAP_Y s"
  "fl (layered r w order depth s) = fl s"
  by (simp_all add: layered_def nodes_of_def Let_def split: prod.splits)

text \<open>The four ways through \<^verbatim>\<open>relayout\<close>.\<close>

lemma relayout_cases:
  fixes r w s
  defines "s1 \<equiv> (if r then s\<lparr>dragged := {}\<rparr> else s)"
  obtains (threw) e where "topoSort s = Inl e" "relayout r w s = (Some e, s1)"
  | (cycle) order where "topoSort s = Inr (False, order)"
      "relayout r w s
        = (None, log ''ERROR: cycle detected; layout based on dependencies is not possible.'' s1)"
  | (nodepth) order e where "topoSort s = Inr (True, order)" "computeDepths s order = Inl e"
      "relayout r w s = (Some e, s1)"
  | (laid) order depth where "topoSort s = Inr (True, order)" "computeDepths s order = Inr depth"
      "relayout r w s = (None, ensurePositionsForMissing w (layered r w order depth s1))"
proof -
  have t: "topoSort s1 = topoSort s" by (rule topoSort_cong) (simp_all add: s1_def nodes_of_def)
  have c: "computeDepths s1 order = computeDepths s order" for order
    by (rule computeDepths_cong) (simp add: s1_def)
  show ?thesis
  proof (cases "topoSort s")
    case (Inl e)
    then have "relayout r w s = (Some e, s1)"
      using t unfolding relayout_def Let_def s1_def [symmetric] by simp
    with Inl show ?thesis by (rule threw)
  next
    case (Inr res)
    obtain ok order where res: "res = (ok, order)" by (cases res)
    show ?thesis
    proof (cases ok)
      case False
      with Inr res have ts: "topoSort s = Inr (False, order)" by simp
      then have "relayout r w s
          = (None, log ''ERROR: cycle detected; layout based on dependencies is not possible.'' s1)"
        using t unfolding relayout_def Let_def s1_def [symmetric] by simp
      with ts show ?thesis by (rule cycle)
    next
      case True
      with Inr res have ts: "topoSort s = Inr (True, order)" by simp
      show ?thesis
      proof (cases "computeDepths s order")
        case (Inl e)
        then have "relayout r w s = (Some e, s1)"
          using t c ts unfolding relayout_def Let_def s1_def [symmetric] by simp
        with ts Inl show ?thesis by (rule nodepth)
      next
        case (Inr depth)
        then have "relayout r w s = (None, ensurePositionsForMissing w (layered r w order depth s1))"
          using t c ts unfolding relayout_def Let_def s1_def [symmetric] by simp
        with ts Inr show ?thesis by (rule laid)
      qed
    qed
  qed
qed

lemma layered_keep:
  "layered False w order depth s = s\<lparr>positions := positions s ++ layer_table s False w order depth\<rparr>"
proof -
  obtain layers maxDepth where g: "group_layers depth order (Map.empty, 0) = (layers, maxDepth)"
    by force
  have p: "place_layers s False w layers [0 ..< Suc maxDepth] (positions s)
      = positions s ++ place_layers s False w layers [0 ..< Suc maxDepth] Map.empty"
    by (rule place_layers_add)
  have a: "layered False w order depth s
      = s\<lparr>positions := place_layers s False w layers [0 ..< Suc maxDepth] (positions s)\<rparr>"
    unfolding layered_def g prod.case Let_def if_False ..
  have b: "layer_table s False w order depth
      = place_layers s False w layers [0 ..< Suc maxDepth] Map.empty"
    unfolding layer_table_def g prod.case ..
  show ?thesis unfolding a b p ..
qed

lemma layered_reset:
  "layered True w order depth s = s\<lparr>positions := layer_table s True w order depth\<rparr>"
proof -
  obtain layers maxDepth where g: "group_layers depth order (Map.empty, 0) = (layers, maxDepth)"
    by force
  have p: "place_layers (s\<lparr>positions := Map.empty\<rparr>) True w layers [0 ..< Suc maxDepth] Map.empty
      = place_layers s True w layers [0 ..< Suc maxDepth] Map.empty"
    by (rule place_layers_cong, rule layer_pos_cong) simp_all
  have u: "s\<lparr>positions := Map.empty\<rparr>\<lparr>positions := x\<rparr> = s\<lparr>positions := x\<rparr>" for x
    by simp
  have e: "positions (s\<lparr>positions := Map.empty\<rparr>) = Map.empty" by simp
  have a: "layered True w order depth s
      = s\<lparr>positions := Map.empty\<rparr>\<lparr>positions :=
          place_layers (s\<lparr>positions := Map.empty\<rparr>) True w layers [0 ..< Suc maxDepth]
            (positions (s\<lparr>positions := Map.empty\<rparr>))\<rparr>"
    unfolding layered_def g prod.case Let_def if_True ..
  have b: "layer_table s True w order depth
      = place_layers s True w layers [0 ..< Suc maxDepth] Map.empty"
    unfolding layer_table_def g prod.case ..
  show ?thesis unfolding a b e p u ..
qed

lemma layer_table_cong:
  assumes "NODE_W s' = NODE_W s" "NODE_H s' = NODE_H s" "GAP_X s' = GAP_X s" "GAP_Y s' = GAP_Y s"
    and "fl s' = fl s" and "dragged s' = dragged s"
  shows "layer_table s' r w order depth = layer_table s r w order depth"
proof -
  have "layer_pos s' = layer_pos s" using assms(1-5) by (rule layer_pos_cong)
  from place_layers_cong [OF this assms(6)] show ?thesis by (simp add: layer_table_def)
qed

lemma relayout_on_cycle:
  assumes "topoSort s = Inr (False, order)"
  shows "relayout r w s
      = (None, log ''ERROR: cycle detected; layout based on dependencies is not possible.''
                 (if r then s\<lparr>dragged := {}\<rparr> else s))"
    and "positions (snd (relayout r w s)) = positions s"
proof -
  show c: "relayout r w s
      = (None, log ''ERROR: cycle detected; layout based on dependencies is not possible.''
                 (if r then s\<lparr>dragged := {}\<rparr> else s))"
    using assms by (cases rule: relayout_cases [of s r w]) simp_all
  show "positions (snd (relayout r w s)) = positions s"
    unfolding c by simp
qed

lemma relayout_twice:
  "positions (snd (relayout False w (snd (relayout False w s))))
     = positions (snd (relayout False w s))"
proof (cases rule: relayout_cases [of s False w])
  case (threw e)
  then show ?thesis by simp
next
  case (cycle order)
  let ?s' = "snd (relayout False w s)"
  have "topoSort ?s' = topoSort s"
    by (rule topoSort_cong) (simp_all add: cycle(2))
  with cycle(1) have "topoSort ?s' = Inr (False, order)" by simp
  from relayout_on_cycle(2) [OF this] show ?thesis .
next
  case (nodepth order e)
  then show ?thesis by simp
next
  case (laid order depth)
  let ?U = "layer_table s False w order depth"
  let ?s3 = "layered False w order depth s"
  let ?s' = "ensurePositionsForMissing w ?s3"
  from laid(3) have s': "snd (relayout False w s) = ?s'" by simp
  have t: "topoSort ?s' = Inr (True, order)"
    using laid(1) topoSort_cong [of ?s' s] by simp
  have c: "computeDepths ?s' order = Inr depth"
    using laid(2) computeDepths_cong [of ?s' s order] by simp
  have again: "relayout False w ?s' = (None, ensurePositionsForMissing w (layered False w order depth ?s'))"
    using t c by (cases rule: relayout_cases [of ?s' False w]) simp_all
  have U: "layer_table ?s' False w order depth = ?U"
    by (rule layer_table_cong) simp_all
  have p3: "positions ?s3 = positions s ++ ?U" by (simp add: layered_keep)
  have keep: "positions ?s' k = Some v" if "?U k = Some v" for k v
  proof -
    from that p3 have "positions ?s3 k = Some v" by simp
    with ensure_keeps [of ?s3 k w] show ?thesis by simp
  qed
  have "positions ?s' ++ ?U = positions ?s'"
  proof
    fix k
    show "(positions ?s' ++ ?U) k = positions ?s' k"
      using keep [of k] by (cases "?U k") (simp_all add: map_add_def)
  qed
  then have "layered False w order depth ?s' = ?s'"
    by (simp add: layered_keep [of w order depth ?s'] U)
  moreover have "ensurePositionsForMissing w ?s' = ?s'"
  proof (rule ensure_idle)
    show "\<forall>n\<in>set (nodes_of ?s'). positions ?s' (nid n) \<noteq> None"
      using ensure_covers [of _ ?s3 w] by simp
  qed
  ultimately show ?thesis by (simp add: s' again)
qed

lemma relayout_reset_dragged: "dragged (snd (relayout True w s)) = {}"
  by (cases rule: relayout_cases [of s True w]) simp_all

lemma relayout_reset_from_empty:
  assumes "topoSort s = Inr (True, order)" and "computeDepths s order = Inr depth"
  shows "snd (relayout True w s) = snd (relayout True w (s\<lparr>positions := Map.empty\<rparr>))"
proof -
  let ?s0 = "s\<lparr>positions := Map.empty\<rparr>"
  have a: "relayout True w s
      = (None, ensurePositionsForMissing w (layered True w order depth (s\<lparr>dragged := {}\<rparr>)))"
    using assms by (cases rule: relayout_cases [of s True w]) simp_all
  have "topoSort ?s0 = Inr (True, order)"
    using assms(1) topoSort_cong [of ?s0 s] by (simp add: nodes_of_def)
  moreover have "computeDepths ?s0 order = Inr depth"
    using assms(2) computeDepths_cong [of ?s0 s order] by simp
  ultimately have b: "relayout True w ?s0
      = (None, ensurePositionsForMissing w (layered True w order depth (?s0\<lparr>dragged := {}\<rparr>)))"
    by (cases rule: relayout_cases [of ?s0 True w]) simp_all
  have "layer_table (?s0\<lparr>dragged := {}\<rparr>) True w order depth
      = layer_table (s\<lparr>dragged := {}\<rparr>) True w order depth"
    by (rule layer_table_cong) simp_all
  then have "layered True w order depth (s\<lparr>dragged := {}\<rparr>)
      = layered True w order depth (?s0\<lparr>dragged := {}\<rparr>)"
    by (simp add: layered_reset)
  with a b show ?thesis by simp
qed

lemma topoSort_ok_topological:
  assumes "loaded s" and "topoSort s = Inr (True, order)"
  shows "distinct order" and "set order = set (node_ids s)"
    and "\<forall>e\<in>set (edges s). index_of order (fst e) < index_of order (snd e)"
proof -
  from topoSort_loaded [OF assms(1)] obtain order' indeg where
    t: "topoSort s = Inr (if length order' \<noteq> length (nodes_of s) then (False, []) else (True, order'))"
    and inv: "kahn_inv (node_ids s) (edges s) indeg [] order'"
    by (elim exE conjE) (rule that)
  from t assms(2) have "length order' = length (node_ids s)"
    by (simp add: node_ids_def split: if_splits)
  with topo_final [OF inv loaded_distinct_ids [OF assms(1)] loaded_edges_wf [OF assms(1)]]
  have "acyclic (set (edges s))" by simp
  from topoSort_acyclic_order [OF assms(1) this] assms(2)
  show "distinct order" and "set order = set (node_ids s)"
    and "\<forall>e\<in>set (edges s). index_of order (fst e) < index_of order (snd e)"
    by auto
qed

lemma computeDepths_after_topoSort:
  assumes "loaded s" and "topoSort s = Inr (True, order)"
  shows "\<exists>depth. computeDepths s order = Inr depth"
  using computeDepths_topological [OF assms(1) topoSort_ok_topological [OF assms]] by blast

lemma relayout_laid:
  assumes "loaded s" and "topoSort s = Inr (True, order)"
  obtains depth where "computeDepths s order = Inr depth"
    "relayout r w s = (None, ensurePositionsForMissing w
        (layered r w order depth (if r then s\<lparr>dragged := {}\<rparr> else s)))"
proof -
  from computeDepths_after_topoSort [OF assms] obtain depth where
    c: "computeDepths s order = Inr depth" ..
  with assms(2) have "relayout r w s = (None, ensurePositionsForMissing w
        (layered r w order depth (if r then s\<lparr>dragged := {}\<rparr> else s)))"
    by (cases rule: relayout_cases [of s r w]) simp_all
  with c show ?thesis by (rule that)
qed

lemma missing_ids_distinct:
  "distinct (map nid (nodes_of s)) \<Longrightarrow> distinct (missing_ids s)"
  unfolding missing_ids_def by (rule distinct_map_filter)

lemma ensure_fallback:
  assumes "distinct (map nid (nodes_of s))" and "j < length (missing_ids s)"
  shows "positions (ensurePositionsForMissing w s) (missing_ids s ! j) = Some (fallback_x s w 40 j, 40)"
proof -
  from assms(2) have "missing_ids s \<noteq> []" by auto
  with pack_missing_nth [OF missing_ids_distinct [OF assms(1)] assms(2)]
  show ?thesis by (simp add: ensurePositionsForMissing_def Let_def)
qed

lemma group_layers_fst:
  "fst (group_layers depth order (layers, mx)) d
     = (if layer_of depth order d = [] then layers d
        else Some ((case layers d of None \<Rightarrow> [] | Some l \<Rightarrow> l) @ layer_of depth order d))"
proof (induction order arbitrary: layers mx)
  case Nil
  show ?case by (simp add: layer_of_def)
next
  case (Cons i order)
  let ?d = "depth_or_0 depth i"
  let ?old = "case layers ?d of None \<Rightarrow> [] | Some l \<Rightarrow> l"
  let ?layers = "layers(?d \<mapsto> ?old @ [i])"
  have step: "group_layers depth (i # order) (layers, mx) = group_layers depth order (?layers, max mx ?d)"
    by (simp add: Let_def)
  have L: "layer_of depth (i # order) d = (if ?d = d then i # layer_of depth order d else layer_of depth order d)"
    by (simp add: layer_of_def)
  show ?case
    unfolding step Cons.IH L by (cases "?d = d") simp_all
qed

lemma group_layers_snd_ge:
  "mx \<le> snd (group_layers depth order (layers, mx))"
proof (induction order arbitrary: layers mx)
  case Nil
  show ?case by simp
next
  case (Cons i order)
  let ?d = "depth_or_0 depth i"
  let ?layers = "layers(?d \<mapsto> (case layers ?d of None \<Rightarrow> [] | Some l \<Rightarrow> l) @ [i])"
  have step: "group_layers depth (i # order) (layers, mx) = group_layers depth order (?layers, max mx ?d)"
    by (simp add: Let_def)
  have "max mx ?d \<le> snd (group_layers depth order (?layers, max mx ?d))" by (rule Cons.IH)
  then show ?case unfolding step by simp
qed

lemma group_layers_snd:
  "k \<in> set order \<Longrightarrow> depth_or_0 depth k \<le> snd (group_layers depth order (layers, mx))"
proof (induction order arbitrary: layers mx)
  case Nil
  then show ?case by simp
next
  case (Cons i order)
  let ?d = "depth_or_0 depth i"
  let ?layers = "layers(?d \<mapsto> (case layers ?d of None \<Rightarrow> [] | Some l \<Rightarrow> l) @ [i])"
  have step: "group_layers depth (i # order) (layers, mx) = group_layers depth order (?layers, max mx ?d)"
    by (simp add: Let_def)
  show ?case
  proof (cases "k = i")
    case True
    have "max mx ?d \<le> snd (group_layers depth order (?layers, max mx ?d))"
      by (rule group_layers_snd_ge)
    with True show ?thesis unfolding step by simp
  next
    case False
    with Cons.prems have "k \<in> set order" by simp
    from Cons.IH [OF this] show ?thesis unfolding step .
  qed
qed

lemma place_ids_skip: "skip k \<Longrightarrow> place_ids skip xy i ids ps k = ps k"
  by (induction ids arbitrary: i ps) auto

lemma place_layers_dragged:
  "\<not> r \<Longrightarrow> k \<in> dragged s \<Longrightarrow> place_layers s r w layers ds ps k = ps k"
  by (induction ds arbitrary: ps) (simp_all add: Let_def place_ids_skip)

lemma place_ids_eq:
  "distinct ids \<Longrightarrow> place_ids skip xy i ids ps k
     = (if k \<in> set ids \<and> \<not> skip k then Some (xy (i + index_of ids k)) else ps k)"
proof (induction ids arbitrary: i ps)
  case Nil
  show ?case by simp
next
  case (Cons a ids)
  then have d: "distinct ids" and a: "a \<notin> set ids" by simp_all
  have ih: "place_ids skip xy (Suc i) ids qs k
      = (if k \<in> set ids \<and> \<not> skip k then Some (xy (Suc i + index_of ids k)) else qs k)" for qs
    by (rule Cons.IH [OF d])
  show ?case
  proof (cases "k = a")
    case True
    with a ih [of ps] ih [of "ps(a \<mapsto> xy i)"] show ?thesis by auto
  next
    case False
    with ih [of ps] ih [of "ps(a \<mapsto> xy i)"] show ?thesis by auto
  qed
qed

lemma place_layers_eq:
  assumes "distinct order"
    and "\<forall>d. layers d = (if layer_of depth order d = [] then None else Some (layer_of depth order d))"
  shows "place_layers s r w layers ds ps k
     = (if k \<in> set order \<and> depth_or_0 depth k \<in> set ds \<and> \<not> (\<not> r \<and> k \<in> dragged s)
        then Some (layer_pos s w (depth_or_0 depth k)
                     (length (layer_of depth order (depth_or_0 depth k)))
                     (index_of (layer_of depth order (depth_or_0 depth k)) k))
        else ps k)"
proof (induction ds arbitrary: ps)
  case Nil
  show ?case by simp
next
  case (Cons d ds)
  let ?L = "layer_of depth order d"
  have ids: "(case layers d of None \<Rightarrow> [] | Some l \<Rightarrow> l) = ?L"
    using assms(2) by simp
  have dL: "distinct ?L" using assms(1) by (simp add: layer_of_def)
  have mem: "k \<in> set ?L \<longleftrightarrow> k \<in> set order \<and> depth_or_0 depth k = d"
    by (auto simp: layer_of_def)
  show ?case
  proof (cases "?L = []")
    case True
    with mem have "\<not> (k \<in> set order \<and> depth_or_0 depth k = d)" by simp
    then show ?thesis
      using True by (auto simp: ids Let_def Cons.IH)
  next
    case False
    let ?ps = "place_ids (\<lambda>k. \<not> r \<and> k \<in> dragged s) (layer_pos s w d (length ?L)) 0 ?L ps"
    have step: "place_layers s r w layers (d # ds) ps = place_layers s r w layers ds ?ps"
      using False by (simp add: ids Let_def)
    have here: "?ps k = (if k \<in> set order \<and> depth_or_0 depth k = d \<and> \<not> (\<not> r \<and> k \<in> dragged s)
        then Some (layer_pos s w d (length ?L) (index_of ?L k)) else ps k)"
      using place_ids_eq [OF dL, of "\<lambda>k. \<not> r \<and> k \<in> dragged s"
          "layer_pos s w d (length ?L)" 0 ps k] mem by auto
    show ?thesis
      unfolding step Cons.IH here by auto
  qed
qed

lemma layer_table_eq:
  assumes "distinct order"
  shows "layer_table s r w order depth k
     = (if k \<in> set order \<and> \<not> (\<not> r \<and> k \<in> dragged s)
        then Some (layer_pos s w (depth_or_0 depth k)
                     (length (layer_of depth order (depth_or_0 depth k)))
                     (index_of (layer_of depth order (depth_or_0 depth k)) k))
        else None)"
proof -
  obtain layers mx where g: "group_layers depth order (Map.empty, 0) = (layers, mx)" by force
  have l: "\<forall>d. layers d = (if layer_of depth order d = [] then None else Some (layer_of depth order d))"
    using group_layers_fst [of depth order Map.empty 0] g by simp
  have m: "depth_or_0 depth k \<in> set [0 ..< Suc mx]" if "k \<in> set order"
    using group_layers_snd [OF that, of depth Map.empty 0] g by auto
  have "layer_table s r w order depth k = place_layers s r w layers [0 ..< Suc mx] Map.empty k"
    by (simp add: layer_table_def g)
  also note place_layers_eq [OF assms l, of s r w "[0 ..< Suc mx]" Map.empty k]
  finally show ?thesis using m by auto
qed

lemma relayout_keeps_dragged:
  assumes "k \<in> dragged s" and "positions s k = Some p"
  shows "positions (snd (relayout False w s)) k = Some p"
proof (cases rule: relayout_cases [of s False w])
  case (threw e)
  with assms(2) show ?thesis by simp
next
  case (cycle order)
  with assms(2) show ?thesis by simp
next
  case (nodepth order e)
  with assms(2) show ?thesis by simp
next
  case (laid order depth)
  have "layer_table s False w order depth k = None"
    using place_layers_dragged [of False k s] assms(1)
    by (simp add: layer_table_def split: prod.splits)
  with assms(2) have "positions (layered False w order depth s) k = Some p"
    by (simp add: layered_keep map_add_def)
  with ensure_keeps [of "layered False w order depth s" k w] laid(3) show ?thesis by simp
qed

lemma relayout_reset_layered:
  assumes "loaded s" and "topoSort s = Inr (True, order)" and "k \<in> set (node_ids s)"
  shows "\<exists>depth. computeDepths s order = Inr depth
    \<and> positions (snd (relayout True w s)) k
        = Some (layer_pos s w (depth_or_0 depth k)
                  (length (layer_of depth order (depth_or_0 depth k)))
                  (index_of (layer_of depth order (depth_or_0 depth k)) k))"
proof -
  from relayout_laid [OF assms(1,2), of True w] obtain depth where
    c: "computeDepths s order = Inr depth"
    and r: "relayout True w s = (None, ensurePositionsForMissing w
        (layered True w order depth (s\<lparr>dragged := {}\<rparr>)))" by auto
  note topo = topoSort_ok_topological [OF assms(1,2)]
  let ?s1 = "s\<lparr>dragged := {}\<rparr>"
  let ?s3 = "layered True w order depth ?s1"
  let ?p = "layer_pos s w (depth_or_0 depth k)
                  (length (layer_of depth order (depth_or_0 depth k)))
                  (index_of (layer_of depth order (depth_or_0 depth k)) k)"
  have lp: "layer_pos ?s1 = layer_pos s" by (rule layer_pos_cong) simp_all
  from assms(3) topo(2) have "k \<in> set order" by simp
  then have "positions ?s3 k = Some ?p"
    by (simp add: layered_reset layer_table_eq [OF topo(1)] lp)
  with ensure_keeps [of ?s3 k w] r have "positions (snd (relayout True w s)) k = Some ?p" by simp
  with c show ?thesis by blast
qed

section \<open>Evaluation of the examples\<close>

lemmas eval_simps = relayout_def topoSort_def computeDepths_def layered_def
  ensurePositionsForMissing_def missing_ids_def layer_pos_def seeds_def js_get_def depth_or_0_def
  nodes_of_def Let_def log_def pointerdown_def pointermove_def
  js_add_def js_sub_def js_mul_def js_div_def

lemmas ex_defs = ex_reloaded_def ex_pinned_def ex_placed_def ex_unplaced_def ex_loaded_eq
  ex_diamond_loaded_def ex_diamond_def ex_init_def init_def
  ex_chain_def ex_cycle_def setData_def validateAndBuildGraph_def blank_def is_js_space_def

lemma ex_diamond_loaded_loaded: "loaded ex_diamond_loaded"
  unfolding ex_diamond_loaded_def
  by (rule setData_loaded [where wk = "Some ex_diamond" and s = ex_init])
     (simp add: ex_diamond_def ex_simps)

lemma ex_pinned_loaded: "loaded ex_pinned"
  by (simp add: loaded_def ex_defs eval_simps)

lemma ex_unplaced_loaded: "loaded ex_unplaced"
  by (simp add: loaded_def ex_defs eval_simps)

lemma ex_reloaded_topoSort: "topoSort ex_reloaded = Inr (False, [])"
  by (simp add: ex_defs eval_simps)

lemma ex_pinned_topoSort: "topoSort ex_pinned = Inr (True, [Some ''a'', Some ''b''])"
  by (simp add: ex_defs eval_simps)

section \<open>The claims\<close>

text \<open>
  Claim C1 (as stated): when validation fails, the previously loaded graph (nodes, \<open>byId\<close>,
  edge list) remains in effect unchanged. This fails on the code: \<^verbatim>\<open>setData\<close> assigns
  \<^verbatim>\<open>this.data\<close> and \<^verbatim>\<open>_validateAndBuildGraph\<close> clears \<^verbatim>\<open>byId\<close> and \<^verbatim>\<open>edges\<close> before it
  validates, and an edge is pushed as soon as its reference resolves. In \<open>ex_loaded\<close>, where
  \<open>a \<rightarrow> b\<close> is loaded, the failing load of \<open>ex_unresolved\<close> leaves the new nodes in \<open>data\<close> and
  \<open>byId\<close> and the edge \<open>c \<rightarrow> d\<close> in \<open>edges\<close>.
\<close>

theorem load_not_atomic_counterexample:
  "loaded ex_loaded
   \<and> edges ex_loaded = [(Some ''a'', Some ''b'')]
   \<and> byId ex_loaded (Some ''a'') = Some (Node (Some ''a'') [])
   \<and> fst (setData (Some ex_unresolved) ex_loaded) = Some (UnknownDep (Some ''d'') (Some ''missing''))
   \<and> data (snd (setData (Some ex_unresolved) ex_loaded)) = ex_unresolved
   \<and> data (snd (setData (Some ex_unresolved) ex_loaded)) \<noteq> data ex_loaded
   \<and> byId (snd (setData (Some ex_unresolved) ex_loaded)) (Some ''a'') = None
   \<and> edges (snd (setData (Some ex_unresolved) ex_loaded)) = [(Some ''c'', Some ''d'')]"
  using ex_loaded_loaded ex_failed_eq [unfolded ex_failed_def]
  by (simp add: ex_loaded_eq) (simp add: ex_init_def init_def ex_chain_def ex_unresolved_def)

text \<open>
  Claim C1 (amended): when validation fails, \<^verbatim>\<open>setData\<close> throws and the prior graph is
  not kept: \<open>data\<close> is the new input, \<open>byId\<close> holds exactly the nodes before the failing
  one and \<open>edges\<close> exactly the references before the failing one. Either the scan
  stopped at node \<open>j\<close>, the first whose id is not a non-blank string (\<open>InvalidId\<close>) or
  repeats the id of an earlier node (\<open>DuplicateId\<close>), and there is no edge; or all nodes
  were scanned and the edge list stopped at reference \<open>k\<close>, the first that does not
  resolve (\<open>UnknownDep\<close>). The nodes and references before these pass their tests.
  Positions and the dragged set are as they were.
\<close>

theorem load_failure_state:
  assumes "setData wk s = (Some e, s')"
  shows "data s' = (case wk of Some w \<Rightarrow> w | None \<Rightarrow> Workflow (Some []))
    \<and> positions s' = positions s \<and> dragged s' = dragged s
    \<and> (\<exists>j k. byId s' = index_nodes (take j (nodes_of s'))
          \<and> edges s' = take k (all_refs (nodes_of s'))
          \<and> list_all good_id (take j (nodes_of s'))
          \<and> distinct (map nid (take j (nodes_of s')))
          \<and> list_all (resolved (byId s')) (take k (all_refs (nodes_of s')))
          \<and> (j < length (nodes_of s') \<and> k = 0
                \<and> (\<not> good_id (nodes_of s' ! j) \<and> e = InvalidId
                    \<or> good_id (nodes_of s' ! j)
                      \<and> nid (nodes_of s' ! j) \<in> nid ` set (take j (nodes_of s'))
                      \<and> e = DuplicateId (the (nid (nodes_of s' ! j))))
              \<or> j = length (nodes_of s') \<and> k < length (all_refs (nodes_of s'))
                \<and> \<not> resolved (byId s') (all_refs (nodes_of s') ! k)
                \<and> e = UnknownDep (snd (all_refs (nodes_of s') ! k))
                                  (fst (all_refs (nodes_of s') ! k))))"
proof -
  let ?s0 = "s\<lparr>data := (case wk of Some w \<Rightarrow> w | None \<Rightarrow> Workflow (Some []))\<rparr>"
  from assms have v: "validateAndBuildGraph ?s0 = (Some e, s')" by (simp add: setData_def)
  note fr = validate_frame [OF v]
  have frame: "data s' = (case wk of Some w \<Rightarrow> w | None \<Rightarrow> Workflow (Some []))"
    "positions s' = positions s" "dragged s' = dragged s"
    using fr by simp_all
  let ?ns = "nodes_of s'"
  let ?refs = "all_refs ?ns"
  let ?P = "\<lambda>j k. byId s' = index_nodes (take j ?ns) \<and> edges s' = take k ?refs
      \<and> list_all good_id (take j ?ns) \<and> distinct (map nid (take j ?ns))
      \<and> list_all (resolved (byId s')) (take k ?refs)
      \<and> (j < length ?ns \<and> k = 0
            \<and> (\<not> good_id (?ns ! j) \<and> e = InvalidId
                \<or> good_id (?ns ! j) \<and> nid (?ns ! j) \<in> nid ` set (take j ?ns)
                  \<and> e = DuplicateId (the (nid (?ns ! j))))
          \<or> j = length ?ns \<and> k < length ?refs \<and> \<not> resolved (byId s') (?refs ! k)
            \<and> e = UnknownDep (snd (?refs ! k)) (fst (?refs ! k)))"
  have ns: "nodes_of ?s0 = ?ns" using fr(4) by simp
  from v have "\<exists>j k. ?P j k"
  proof (cases rule: validate_cases)
    case (ids e' m)
    from scan_ids_prefix [OF ids(1)] obtain j where j: "j \<le> length ?ns" "j \<noteq> length ?ns"
      "m = Map.empty ++ index_nodes (take j ?ns)"
      "list_all good_id (take j ?ns)" "distinct (map nid (take j ?ns))"
      "j < length ?ns \<longrightarrow> \<not> good_id (?ns ! j) \<or> m (nid (?ns ! j)) \<noteq> None"
      "j < length ?ns \<longrightarrow>
         Some e' = Some (if good_id (?ns ! j) then DuplicateId (the (nid (?ns ! j))) else InvalidId)"
      unfolding ns by (elim exE conjE) simp
    from j(1,2) have lt: "j < length ?ns" by simp
    from ids(2) have ee: "e' = e" by simp
    have b: "byId s' = index_nodes (take j ?ns)" using ids(4) j(3) by simp
    have ed: "edges s' = take 0 ?refs" using ids(5) by simp
    have dup: "nid (?ns ! j) \<in> nid ` set (take j ?ns)" if "good_id (?ns ! j)"
    proof -
      from that j(6) lt have "m (nid (?ns ! j)) \<noteq> None" by simp
      with j(3) have "find (\<lambda>n. nid n = nid (?ns ! j)) (take j ?ns) \<noteq> None"
        by (simp add: index_nodes_def)
      then obtain n where "n \<in> set (take j ?ns)" "nid n = nid (?ns ! j)"
        by (auto simp: find_None_iff)
      then show ?thesis by (metis imageI)
    qed
    have err: "e = (if good_id (?ns ! j) then DuplicateId (the (nid (?ns ! j))) else InvalidId)"
      using j(7) lt ee by simp
    have "?P j 0"
    proof (cases "good_id (?ns ! j)")
      case True
      with b ed j(4,5) lt dup err show ?thesis by simp
    next
      case False
      with b ed j(4,5) lt err show ?thesis by simp
    qed
    then show ?thesis by blast
  next
    case (deps m es)
    from scan_ids_prefix [OF deps(1)] obtain j where j: "j = length ?ns"
      "m = Map.empty ++ index_nodes (take j ?ns)"
      "list_all good_id (take j ?ns)" "distinct (map nid (take j ?ns))"
      unfolding ns by (elim exE conjE) simp
    from build_edges_prefix [OF deps(2)] obtain k where k: "k \<le> length ?refs"
      "k \<noteq> length ?refs" "es = [] @ take k ?refs"
      "list_all (resolved m) (take k ?refs)"
      "k < length ?refs \<longrightarrow> \<not> resolved m (?refs ! k)"
      "k < length ?refs \<longrightarrow> Some e = Some (UnknownDep (snd (?refs ! k)) (fst (?refs ! k)))"
      unfolding ns by (elim exE conjE) simp
    from k(1,2) have lt: "k < length ?refs" by simp
    have bm: "byId s' = m" by (rule deps(4))
    have b: "byId s' = index_nodes (take (length ?ns) ?ns)" using deps(4) j(1,2) by simp
    have ed: "edges s' = take k ?refs" using deps(5) k(3) by simp
    have "?P (length ?ns) k"
      using b ed j(1,3,4) k(4,5,6) lt unfolding bm by simp
    then show ?thesis by blast
  qed
  with frame show ?thesis by simp
qed

theorem load_failure_state_witness:
  "fst (setData (Some ex_unresolved) ex_loaded) = Some (UnknownDep (Some ''d'') (Some ''missing''))
   \<and> data (snd (setData (Some ex_unresolved) ex_loaded)) = ex_unresolved
   \<and> positions (snd (setData (Some ex_unresolved) ex_loaded)) = positions ex_loaded
   \<and> dragged (snd (setData (Some ex_unresolved) ex_loaded)) = dragged ex_loaded
   \<and> byId (snd (setData (Some ex_unresolved) ex_loaded)) (Some ''c'') = Some (Node (Some ''c'') [])
   \<and> edges (snd (setData (Some ex_unresolved) ex_loaded)) = [(Some ''c'', Some ''d'')]"
proof -
  let ?e = "UnknownDep (Some ''d'') (Some ''missing'')"
  let ?s' = "snd (setData (Some ex_unresolved) ex_loaded)"
  have f: "fst (setData (Some ex_unresolved) ex_loaded) = Some ?e"
    using ex_failed_eq by (simp add: ex_failed_def)
  then have "setData (Some ex_unresolved) ex_loaded = (Some ?e, ?s')"
    by (simp add: prod_eq_iff)
  from load_failure_state [OF this]
  have "data ?s' = ex_unresolved" and "positions ?s' = positions ex_loaded"
    and "dragged ?s' = dragged ex_loaded"
    by simp_all
  moreover have "byId ?s' (Some ''c'') = Some (Node (Some ''c'') [])"
    and "edges ?s' = [(Some ''c'', Some ''d'')]"
    using ex_failed_eq by (simp_all add: ex_failed_def)
  ultimately show ?thesis using f by (intro conjI)
qed

text \<open>
  Claim C2: for every validly loaded acyclic graph, \<^verbatim>\<open>topoSort\<close> returns \<^verbatim>\<open>ok = true\<close> and an
  order that contains every node id exactly once and in which, for every edge
  \<open>(from, to)\<close>, the index of \<open>from\<close> is strictly less than the index of \<open>to\<close>.
\<close>

theorem topoSort_acyclic:
  assumes "loaded s" and "acyclic (set (edges s))"
  shows "\<exists>order. topoSort s = Inr (True, order)
    \<and> distinct order \<and> set order = set (node_ids s) \<and> length order = length (nodes_of s)
    \<and> (\<forall>e\<in>set (edges s). fst e \<in> set order \<and> snd e \<in> set order
          \<and> index_of order (fst e) < index_of order (snd e))"
  using assms by (rule topoSort_acyclic_order)

theorem topoSort_acyclic_witness:
  "loaded ex_loaded \<and> acyclic (set (edges ex_loaded))
   \<and> (\<exists>order. topoSort ex_loaded = Inr (True, order) \<and> distinct order
        \<and> set order = {Some ''a'', Some ''b''}
        \<and> index_of order (Some ''a'') < index_of order (Some ''b''))"
proof -
  have e: "edges ex_loaded = [(Some ''a'', Some ''b'')]"
    and n: "node_ids ex_loaded = [Some ''a'', Some ''b'']"
    by (simp_all add: ex_loaded_eq node_ids_def nodes_of_def ex_chain_def)
  have a: "acyclic (set (edges ex_loaded))" by (simp add: e wf_acyclic)
  from topoSort_acyclic [OF ex_loaded_loaded a] ex_loaded_loaded a
  show ?thesis unfolding e n by auto
qed

text \<open>
  Claim C3: for every validly loaded graph whose edges contain at least one cycle,
  \<^verbatim>\<open>topoSort\<close> returns \<^verbatim>\<open>ok === false\<close> and an empty order.
\<close>

theorem topoSort_cyclic:
  assumes "loaded s" and "\<not> acyclic (set (edges s))"
  shows "topoSort s = Inr (False, [])"
  using assms by (rule topoSort_cyclic_fails)

theorem topoSort_cyclic_witness:
  "loaded ex_cyclic \<and> \<not> acyclic (set (edges ex_cyclic))
   \<and> topoSort ex_cyclic = Inr (False, [])"
proof -
  have e: "edges ex_cyclic = [(Some ''b'', Some ''a''), (Some ''a'', Some ''b'')]"
    by (simp add: ex_cyclic_eq)
  have "(Some ''a'', Some ''b'') \<in> set (edges ex_cyclic)"
    and "(Some ''b'', Some ''a'') \<in> set (edges ex_cyclic)"
    by (simp_all add: e)
  then have "(Some ''a'', Some ''a'') \<in> (set (edges ex_cyclic))\<^sup>+"
    by (rule trancl_into_trancl [OF r_into_trancl])
  then have a: "\<not> acyclic (set (edges ex_cyclic))"
    unfolding acyclic_def by blast
  from topoSort_cyclic [OF ex_cyclic_loaded a] ex_cyclic_loaded a
  show ?thesis by simp
qed

text \<open>
  Claim C4 (as stated): \<^verbatim>\<open>relayout\<close> with \<^verbatim>\<open>resetDragged = true\<close> first clears the dragged
  set and all positions, before the topological check, also on a cyclic graph. The
  code clears \<^verbatim>\<open>dragged\<close> first, but \<^verbatim>\<open>positions\<close> only after \<^verbatim>\<open>topoSort\<close> reported
  \<^verbatim>\<open>ok\<close>: in \<open>ex_reloaded\<close>, a cyclic graph over laid-out nodes, the reset empties the
  dragged set and leaves the positions.
\<close>

theorem relayout_reset_cycle_counterexample:
  "topoSort ex_reloaded = Inr (False, [])
   \<and> positions ex_reloaded (Some ''b'') = Some (310, 200)
   \<and> dragged ex_reloaded = {Some ''a''}
   \<and> fst (relayout True 800 ex_reloaded) = None
   \<and> dragged (snd (relayout True 800 ex_reloaded)) = {}
   \<and> positions (snd (relayout True 800 ex_reloaded)) (Some ''b'') = Some (310, 200)"
  by (simp add: ex_defs eval_simps)

text \<open>
  Claim C4 (amended): \<^verbatim>\<open>relayout\<close> with \<^verbatim>\<open>resetDragged = true\<close> clears the dragged set as
  its first step, before the topological check, whatever the graph. The positions
  are cleared only once \<^verbatim>\<open>topoSort\<close> has reported \<^verbatim>\<open>ok\<close>, before any new position is
  assigned, so that the result is the one computed from an empty table; on a cyclic
  graph the positions are left as they are.
\<close>

theorem relayout_reset_clears:
  "dragged (snd (relayout True w s)) = {}
   \<and> (topoSort s = Inr (False, order) \<longrightarrow> positions (snd (relayout True w s)) = positions s)
   \<and> (topoSort s = Inr (True, order) \<longrightarrow> computeDepths s order = Inr depth \<longrightarrow>
        snd (relayout True w s) = snd (relayout True w (s\<lparr>positions := Map.empty\<rparr>)))"
  using relayout_reset_dragged [of w s] relayout_on_cycle(2) [of s order True w]
    relayout_reset_from_empty [of s order depth w]
  by blast

theorem relayout_reset_clears_witness:
  "topoSort ex_reloaded = Inr (False, [])
   \<and> dragged (snd (relayout True 800 ex_reloaded)) = {}
   \<and> positions (snd (relayout True 800 ex_reloaded)) = positions ex_reloaded
   \<and> topoSort ex_pinned = Inr (True, [Some ''a'', Some ''b''])
   \<and> (\<exists>depth. computeDepths ex_pinned [Some ''a'', Some ''b''] = Inr depth)
   \<and> snd (relayout True 800 ex_pinned) = snd (relayout True 800 (ex_pinned\<lparr>positions := Map.empty\<rparr>))"
proof -
  from computeDepths_after_topoSort [OF ex_pinned_loaded ex_pinned_topoSort]
  obtain depth where d: "computeDepths ex_pinned [Some ''a'', Some ''b''] = Inr depth" ..
  from relayout_reset_clears [of 800 ex_reloaded "[]"] ex_reloaded_topoSort
  have "dragged (snd (relayout True 800 ex_reloaded)) = {}"
    and "positions (snd (relayout True 800 ex_reloaded)) = positions ex_reloaded"
    by simp_all
  moreover from relayout_reset_clears [of 800 ex_pinned "[Some ''a'', Some ''b'']" depth]
    ex_pinned_topoSort d
  have "snd (relayout True 800 ex_pinned) = snd (relayout True 800 (ex_pinned\<lparr>positions := Map.empty\<rparr>))"
    by simp
  ultimately show ?thesis using ex_reloaded_topoSort ex_pinned_topoSort d by blast
qed

text \<open>
  Claim C5 (as stated): a node pinned at \<open>P\<close> keeps \<open>P\<close> through \<^verbatim>\<open>relayout\<close> without
  reset, and a \<^verbatim>\<open>relayout\<close> with reset recomputes its position by the layered
  algorithm. The second half fails where the graph is cyclic: in \<open>ex_reloaded\<close> node
  \<open>a\<close>, pinned at \<open>(10, 20)\<close>, is still at \<open>(10, 20)\<close> after the reset, which only emptied
  the dragged set.
\<close>

theorem pin_reset_cycle_counterexample:
  "Some ''a'' \<in> dragged ex_reloaded
   \<and> positions ex_reloaded (Some ''a'') = Some (10, 20)
   \<and> topoSort ex_reloaded = Inr (False, [])
   \<and> positions (snd (relayout True 800 ex_reloaded)) (Some ''a'') = Some (10, 20)
   \<and> dragged (snd (relayout True 800 ex_reloaded)) = {}"
  by (simp add: ex_defs eval_simps)

text \<open>
  Claim C5 (amended): a node \<open>k\<close> in the dragged set with position \<open>p\<close> is still at \<open>p\<close>
  after \<^verbatim>\<open>relayout\<close> without reset. After \<^verbatim>\<open>relayout\<close> with reset on a loaded graph that
  \<^verbatim>\<open>topoSort\<close> orders, the dragged set is empty and every node \<open>k\<close> of the graph is at
  the position the layered algorithm gives it: that of its index in its layer (the
  nodes of \<open>order\<close> with its depth), of the layer's size and of its depth.
\<close>

theorem pin_preservation:
  "(k \<in> dragged s \<longrightarrow> positions s k = Some p \<longrightarrow>
      positions (snd (relayout False w s)) k = Some p)
   \<and> (loaded s \<longrightarrow> topoSort s = Inr (True, order) \<longrightarrow> k \<in> set (node_ids s) \<longrightarrow>
        dragged (snd (relayout True w s)) = {}
        \<and> (\<exists>depth. computeDepths s order = Inr depth
             \<and> positions (snd (relayout True w s)) k
                 = Some (layer_pos s w (depth_or_0 depth k)
                           (length (layer_of depth order (depth_or_0 depth k)))
                           (index_of (layer_of depth order (depth_or_0 depth k)) k))))"
  using relayout_keeps_dragged [of k s p w] relayout_reset_dragged [of w s]
    relayout_reset_layered [of s order k w]
  by blast

theorem pin_preservation_witness:
  "Some ''a'' \<in> dragged ex_pinned \<and> positions ex_pinned (Some ''a'') = Some (10, 20)
   \<and> positions (snd (relayout False 800 ex_pinned)) (Some ''a'') = Some (10, 20)
   \<and> loaded ex_pinned \<and> topoSort ex_pinned = Inr (True, [Some ''a'', Some ''b''])
   \<and> Some ''a'' \<in> set (node_ids ex_pinned)
   \<and> dragged (snd (relayout True 800 ex_pinned)) = {}
   \<and> positions (snd (relayout True 800 ex_pinned)) (Some ''a'') = Some (310, 60)"
proof -
  have h: "Some ''a'' \<in> dragged ex_pinned" "positions ex_pinned (Some ''a'') = Some (10, 20)"
    "Some ''a'' \<in> set (node_ids ex_pinned)"
    by (simp_all add: node_ids_def ex_defs eval_simps)
  have r: "positions (snd (relayout True 800 ex_pinned)) (Some ''a'') = Some (310, 60)"
    by (simp add: ex_defs eval_simps)
  from pin_preservation [of "Some ''a''" ex_pinned "(10, 20)" 800 "[Some ''a'', Some ''b'']"]
    h ex_pinned_loaded ex_pinned_topoSort
  have "positions (snd (relayout False 800 ex_pinned)) (Some ''a'') = Some (10, 20)"
    and "dragged (snd (relayout True 800 ex_pinned)) = {}"
    by simp_all
  with h r ex_pinned_loaded ex_pinned_topoSort show ?thesis by simp
qed

text \<open>
  Claim C6: whenever \<^verbatim>\<open>topoSort\<close> reports not ok, \<^verbatim>\<open>relayout\<close> returns without throwing and
  without modifying any entry of the positions table; the cycle is reported (a line
  on the log element) and every existing position is preserved.
\<close>

theorem relayout_cycle_keeps_positions:
  assumes "topoSort s = Inr (False, order)"
  shows "fst (relayout r w s) = None
    \<and> positions (snd (relayout r w s)) = positions s
    \<and> snd (relayout r w s)
        = log ''ERROR: cycle detected; layout based on dependencies is not possible.''
            (if r then s\<lparr>dragged := {}\<rparr> else s)"
  using relayout_on_cycle [OF assms, of r w] by simp

theorem relayout_cycle_keeps_positions_witness:
  "topoSort ex_reloaded = Inr (False, [])
   \<and> fst (relayout False 800 ex_reloaded) = None
   \<and> positions (snd (relayout False 800 ex_reloaded)) = positions ex_reloaded
   \<and> positions (snd (relayout False 800 ex_reloaded)) (Some ''a'') = Some (10, 20)
   \<and> logEl (snd (relayout False 800 ex_reloaded))
       = Some (''ERROR: cycle detected; layout based on dependencies is not possible.'' @ [CHR 0x0A])"
proof -
  from relayout_cycle_keeps_positions [OF ex_reloaded_topoSort, of False 800]
  have "fst (relayout False 800 ex_reloaded) = None"
    and p: "positions (snd (relayout False 800 ex_reloaded)) = positions ex_reloaded"
    and l: "snd (relayout False 800 ex_reloaded)
        = log ''ERROR: cycle detected; layout based on dependencies is not possible.'' ex_reloaded"
    by simp_all
  moreover have "positions ex_reloaded (Some ''a'') = Some (10, 20)"
    by (simp add: ex_defs eval_simps)
  moreover have "logEl ex_reloaded = Some []"
    by (simp add: ex_defs eval_simps)
  ultimately show ?thesis using ex_reloaded_topoSort by (simp add: log_def)
qed

text \<open>
  Claim C7: on an acyclic graph with a valid topological order (every node id exactly
  once, every edge forward), the computed depth of a node with no dependencies is
  \<open>0\<close> and otherwise \<open>1\<close> plus the maximum depth of its dependencies; so for every edge
  \<open>(from, to)\<close>, the depth of \<open>to\<close> exceeds the depth of \<open>from\<close>.
\<close>

theorem computeDepths_layers:
  assumes "loaded s" and "distinct order" and "set order = set (node_ids s)"
    and "\<forall>e\<in>set (edges s). index_of order (fst e) < index_of order (snd e)"
  shows "\<exists>depth. computeDepths s order = Inr depth
    \<and> (\<forall>n\<in>set (nodes_of s). depth (nid n)
          = Some (if depends_on n = [] then 0
                  else 1 + Max ((\<lambda>dep. depth_or_0 depth (node_id dep)) ` set (depends_on n))))
    \<and> (\<forall>e\<in>set (edges s). depth_or_0 depth (fst e) < depth_or_0 depth (snd e))"
  using assms by (rule computeDepths_topological)

theorem computeDepths_layers_witness:
  "loaded ex_diamond_loaded
   \<and> set [Some ''A'', Some ''B'', Some ''C'', Some ''D''] = set (node_ids ex_diamond_loaded)
   \<and> (\<exists>depth. computeDepths ex_diamond_loaded [Some ''A'', Some ''B'', Some ''C'', Some ''D''] = Inr depth
        \<and> depth (Some ''A'') = Some 0 \<and> depth (Some ''B'') = Some 1
        \<and> depth (Some ''C'') = Some 1 \<and> depth (Some ''D'') = Some 2
        \<and> depth_or_0 depth (Some ''A'') < depth_or_0 depth (Some ''B''))"
proof -
  let ?order = "[Some ''A'', Some ''B'', Some ''C'', Some ''D'']"
  have n: "nodes_of ex_diamond_loaded = [Node (Some ''A'') [],
      Node (Some ''B'') [Dep (Some ''A'')], Node (Some ''C'') [Dep (Some ''A'')],
      Node (Some ''D'') [Dep (Some ''B''), Dep (Some ''C'')]]"
    and e: "edges ex_diamond_loaded = [(Some ''A'', Some ''B''), (Some ''A'', Some ''C''),
      (Some ''B'', Some ''D''), (Some ''C'', Some ''D'')]"
    by (simp_all add: ex_defs nodes_of_def)
  have s: "set ?order = set (node_ids ex_diamond_loaded)"
    by (simp add: node_ids_def n)
  have t: "\<forall>e\<in>set (edges ex_diamond_loaded). index_of ?order (fst e) < index_of ?order (snd e)"
    by (simp add: e)
  from computeDepths_layers [OF ex_diamond_loaded_loaded _ s t]
  obtain depth where c: "computeDepths ex_diamond_loaded ?order = Inr depth"
    and v: "\<forall>n\<in>set (nodes_of ex_diamond_loaded). depth (nid n)
          = Some (if depends_on n = [] then 0
                  else 1 + Max ((\<lambda>dep. depth_or_0 depth (node_id dep)) ` set (depends_on n)))"
    and m: "\<forall>e\<in>set (edges ex_diamond_loaded). depth_or_0 depth (fst e) < depth_or_0 depth (snd e)"
    by auto
  from v have a: "depth (Some ''A'') = Some 0" by (simp add: n)
  with v have b: "depth (Some ''B'') = Some 1" and c': "depth (Some ''C'') = Some 1"
    by (simp_all add: n depth_or_0_def)
  with v have d: "depth (Some ''D'') = Some 2" by (simp add: n depth_or_0_def)
  from m have "depth_or_0 depth (Some ''A'') < depth_or_0 depth (Some ''B'')" by (simp add: e)
  with ex_diamond_loaded_loaded s c a b c' d show ?thesis by blast
qed

text \<open>
  Claim C8: after every successful (non-cycle) \<^verbatim>\<open>relayout\<close> every node of the current graph
  has a position. A node without a position once the layered loop is done is placed
  by the fallback pass in the band \<open>y = 40\<close>, left to right from \<open>x = 40\<close> with a wrap at
  the right margin, in the arithmetic of the code; a node that has one keeps it. On a
  loaded graph that \<^verbatim>\<open>topoSort\<close> orders, \<^verbatim>\<open>relayout\<close> is successful.
\<close>

theorem relayout_positions_all:
  assumes "topoSort s = Inr (True, order)"
  shows "(loaded s \<longrightarrow> fst (relayout r w s) = None \<and> distinct (map nid (nodes_of s)))
    \<and> (fst (relayout r w s) = None \<longrightarrow>
          nodes_of (snd (relayout r w s)) = nodes_of s
          \<and> (\<forall>n\<in>set (nodes_of s). positions (snd (relayout r w s)) (nid n) \<noteq> None)
          \<and> (\<exists>depth. computeDepths s order = Inr depth
               \<and> (let s3 = layered r w order depth (if r then s\<lparr>dragged := {}\<rparr> else s)
                  in snd (relayout r w s) = ensurePositionsForMissing w s3
                     \<and> (\<forall>k. positions s3 k \<noteq> None \<longrightarrow>
                           positions (snd (relayout r w s)) k = positions s3 k)
                     \<and> (distinct (map nid (nodes_of s)) \<longrightarrow>
                         (\<forall>j<length (missing_ids s3).
                            positions (snd (relayout r w s)) (missing_ids s3 ! j)
                              = Some (fallback_x s w 40 j, 40))))))"
proof (intro conjI impI)
  assume l: "loaded s"
  show "fst (relayout r w s) = None"
    by (rule relayout_laid [OF l assms, of r w]) simp
  from loaded_facts(3) [OF l] show "distinct (map nid (nodes_of s))" .
next
  assume ok: "fst (relayout r w s) = None"
  have "\<exists>depth. computeDepths s order = Inr depth
      \<and> relayout r w s = (None, ensurePositionsForMissing w
          (layered r w order depth (if r then s\<lparr>dragged := {}\<rparr> else s)))"
  proof (cases rule: relayout_cases [of s r w])
    case (threw e)
    with assms show ?thesis by simp
  next
    case (cycle order')
    with assms show ?thesis by simp
  next
    case (nodepth order' e)
    with ok show ?thesis by simp
  next
    case (laid order' depth)
    from laid(1) assms have "order' = order" by simp
    with laid(2,3) show ?thesis by blast
  qed
  then obtain depth where
    c: "computeDepths s order = Inr depth"
    and l: "relayout r w s = (None, ensurePositionsForMissing w
        (layered r w order depth (if r then s\<lparr>dragged := {}\<rparr> else s)))"
    by (elim exE conjE)
  let ?s3 = "layered r w order depth (if r then s\<lparr>dragged := {}\<rparr> else s)"
  have n3: "nodes_of ?s3 = nodes_of s" by (simp add: nodes_of_def)
  have w3: "NODE_W ?s3 = NODE_W s" "fl ?s3 = fl s" by simp_all
  have fx: "fallback_x ?s3 w x j = fallback_x s w x j" for x j
    by (induction j arbitrary: x) (simp_all add: w3 js_add_def js_sub_def)
  show "nodes_of (snd (relayout r w s)) = nodes_of s" using l n3 by simp
  show "\<forall>n\<in>set (nodes_of s). positions (snd (relayout r w s)) (nid n) \<noteq> None"
    using ensure_covers [of _ ?s3 w] l n3 by simp
  have "snd (relayout r w s) = ensurePositionsForMissing w ?s3" using l by simp
  moreover have "\<forall>k. positions ?s3 k \<noteq> None \<longrightarrow>
      positions (snd (relayout r w s)) k = positions ?s3 k"
    using ensure_keeps [of ?s3 _ w] l by simp
  moreover have "distinct (map nid (nodes_of s)) \<longrightarrow> (\<forall>j<length (missing_ids ?s3).
      positions (snd (relayout r w s)) (missing_ids ?s3 ! j) = Some (fallback_x s w 40 j, 40))"
  proof
    assume "distinct (map nid (nodes_of s))"
    then have d3: "distinct (map nid (nodes_of ?s3))" unfolding n3 .
    from ensure_fallback [OF d3, of _ w] l fx
    show "\<forall>j<length (missing_ids ?s3).
      positions (snd (relayout r w s)) (missing_ids ?s3 ! j) = Some (fallback_x s w 40 j, 40)"
      by simp
  qed
  ultimately show "\<exists>depth. computeDepths s order = Inr depth
       \<and> (let s3 = layered r w order depth (if r then s\<lparr>dragged := {}\<rparr> else s)
          in snd (relayout r w s) = ensurePositionsForMissing w s3
             \<and> (\<forall>k. positions s3 k \<noteq> None \<longrightarrow>
                   positions (snd (relayout r w s)) k = positions s3 k)
             \<and> (distinct (map nid (nodes_of s)) \<longrightarrow>
                 (\<forall>j<length (missing_ids s3).
                    positions (snd (relayout r w s)) (missing_ids s3 ! j)
                      = Some (fallback_x s w 40 j, 40))))"
    using c by (simp only: Let_def) blast
qed

theorem relayout_positions_all_witness:
  "loaded ex_unplaced \<and> topoSort ex_unplaced = Inr (True, [Some ''a'', Some ''b''])
   \<and> fst (relayout False 800 ex_unplaced) = None
   \<and> distinct (map nid (nodes_of ex_unplaced))
   \<and> positions (snd (relayout False 800 ex_unplaced)) (Some ''a'') \<noteq> None
   \<and> positions (snd (relayout False 800 ex_unplaced)) (Some ''b'') = Some (40, 40)"
proof -
  have t: "topoSort ex_unplaced = Inr (True, [Some ''a'', Some ''b''])"
    by (simp add: ex_defs eval_simps)
  have n: "nodes_of ex_unplaced = [Node (Some ''a'') [], Node (Some ''b'') [Dep (Some ''a'')]]"
    by (simp add: ex_defs nodes_of_def)
  note th = relayout_positions_all [OF t, of False 800]
  from th ex_unplaced_loaded have ok: "fst (relayout False 800 ex_unplaced) = None"
    and d: "distinct (map nid (nodes_of ex_unplaced))" by simp_all
  from th ok
  have "\<forall>n\<in>set (nodes_of ex_unplaced). positions (snd (relayout False 800 ex_unplaced)) (nid n) \<noteq> None"
    by simp
  then have a: "positions (snd (relayout False 800 ex_unplaced)) (Some ''a'') \<noteq> None"
    by (simp add: n)
  from th ok d obtain depth where c: "computeDepths ex_unplaced [Some ''a'', Some ''b''] = Inr depth"
    and f: "\<forall>j<length (missing_ids (layered False 800 [Some ''a'', Some ''b''] depth ex_unplaced)).
        positions (snd (relayout False 800 ex_unplaced))
          (missing_ids (layered False 800 [Some ''a'', Some ''b''] depth ex_unplaced) ! j)
        = Some (fallback_x ex_unplaced 800 40 j, 40)"
    by (auto simp: Let_def)
  have "missing_ids (layered False 800 [Some ''a'', Some ''b''] depth ex_unplaced) = [Some ''b'']"
  proof -
    have "layer_table ex_unplaced False 800 [Some ''a'', Some ''b''] depth (Some ''b'') = None"
      and "layer_table ex_unplaced False 800 [Some ''a'', Some ''b''] depth (Some ''a'') \<noteq> None"
      by (simp_all add: layer_table_eq ex_unplaced_def)
    moreover have "positions ex_unplaced = Map.empty"
      by (simp add: ex_defs)
    then have "positions (layered False 800 [Some ''a'', Some ''b''] depth ex_unplaced)
        = layer_table ex_unplaced False 800 [Some ''a'', Some ''b''] depth"
      by (simp add: layered_keep)
    moreover have "nodes_of (layered False 800 [Some ''a'', Some ''b''] depth ex_unplaced)
        = nodes_of ex_unplaced" by simp
    ultimately show ?thesis
      by (simp add: missing_ids_def n)
  qed
  with f have "positions (snd (relayout False 800 ex_unplaced)) (Some ''b'')
      = Some (fallback_x ex_unplaced 800 40 0, 40)" by simp
  moreover have "fallback_x ex_unplaced 800 40 0 = 40"
    by (simp add: ex_defs js_add_def js_sub_def)
  ultimately have b: "positions (snd (relayout False 800 ex_unplaced)) (Some ''b'') = Some (40, 40)"
    by simp
  from ex_unplaced_loaded t ok d a b show ?thesis by (intro conjI)
qed

text \<open>
  Claim C9: \<^verbatim>\<open>relayout\<close> is idempotent: in every state, two calls in a row without reset at
  the same viewport width, with nothing in between, leave the same positions table
  after the second call as after the first.
\<close>

theorem relayout_idempotent:
  "positions (snd (relayout False w (snd (relayout False w s))))
     = positions (snd (relayout False w s))"
  by (rule relayout_twice)

theorem relayout_idempotent_witness:
  "positions (snd (relayout False 800 (snd (relayout False 800 ex_unplaced))))
     = positions (snd (relayout False 800 ex_unplaced))
   \<and> positions (snd (relayout False 800 (snd (relayout False 800 ex_unplaced)))) (Some ''b'')
     = Some (40, 40)"
proof -
  have "positions (snd (relayout False 800 ex_unplaced)) (Some ''b'') = Some (40, 40)"
    by (simp add: ex_defs eval_simps)
  with relayout_idempotent [of 800 ex_unplaced] show ?thesis by simp
qed

text \<open>
  Claim C10: a node whose \<^verbatim>\<open>depends_on\<close> contains its own id passes validation (a
  reference only has to name an id of the node set, which includes the node itself)
  and yields a self-loop edge; the self-dependency shows only later, as \<^verbatim>\<open>topoSort\<close>
  returning \<^verbatim>\<open>ok = false\<close>.
\<close>

theorem self_dependency_loads_then_cycle:
  assumes "list_all good_id ns" and "distinct (map nid ns)"
    and "\<forall>n\<in>set ns. \<forall>dep\<in>set (depends_on n). node_id dep \<in> nid ` set ns"
    and "n \<in> set ns" and "Dep (nid n) \<in> set (depends_on n)"
  shows "fst (setData (Some (Workflow (Some ns))) s) = None
    \<and> (nid n, nid n) \<in> set (edges (snd (setData (Some (Workflow (Some ns))) s)))
    \<and> topoSort (snd (setData (Some (Workflow (Some ns))) s)) = Inr (False, [])"
proof -
  let ?s = "snd (setData (Some (Workflow (Some ns))) s)"
  note sd = setData_wellformed [OF assms(1-3), of s]
  then have ok: "fst (setData (Some (Workflow (Some ns))) s) = None"
    and ed: "edges ?s = all_refs ns" by simp_all
  from sd have "setData (Some (Workflow (Some ns))) s = (None, ?s)" by simp
  then have l: "loaded ?s" by (rule setData_loaded)
  from assms(4,5) have self: "(nid n, nid n) \<in> set (edges ?s)"
    unfolding ed all_refs_def by force
  then have "(nid n, nid n) \<in> (set (edges ?s))\<^sup>+" by (rule r_into_trancl)
  then have "\<not> acyclic (set (edges ?s))" by (auto simp: acyclic_def)
  from topoSort_cyclic_fails [OF l this] ok self show ?thesis by simp
qed

theorem self_dependency_loads_then_cycle_witness:
  "fst (setData (Some (Workflow (Some [Node (Some ''a'') [Dep (Some ''a'')]]))) ex_init) = None
   \<and> (Some ''a'', Some ''a'')
       \<in> set (edges (snd (setData (Some (Workflow (Some [Node (Some ''a'') [Dep (Some ''a'')]]))) ex_init)))
   \<and> topoSort (snd (setData (Some (Workflow (Some [Node (Some ''a'') [Dep (Some ''a'')]]))) ex_init))
       = Inr (False, [])"
  using self_dependency_loads_then_cycle
    [of "[Node (Some ''a'') [Dep (Some ''a'')]]" "Node (Some ''a'') [Dep (Some ''a'')]" ex_init]
  by (simp add: good_id_def blank_def is_js_space_def)

end
